theory Spec2Isabelle
  imports Main "HOL-Library.Word"
begin

unbundle bit_operations_syntax

section \<open>Data model of the runtime (runtime.c)\<close>

type_synonym uint8 = "8 word"
type_synonym uint32 = "32 word"

text \<open>
  The headers mem.h, interp.h and persist.h are not among the sources. The numeric
  constants they declare are collected in one record that every operation takes as its
  first argument: the wire identifiers of the message types, the chunk types that the
  task operations test, the two task statuses that runtime.c names, and
  \<open>PERSISTENT_HEADER_WORDS\<close>. \<open>hatLiteral\<close> stands for the instruction decoding of
  \<open>broadcastMatches\<close> (\<open>CMD\<close>, \<open>ARG\<close>, \<open>pushLiteral\<close>, \<open>obj2str\<close>): from the
  body of a chunk's code record it yields the string literal pushed by the second
  instruction, or \<open>None\<close> when that instruction is not a \<open>pushLiteral\<close>.
  The array bounds \<open>MAX_TASKS\<close>, \<open>MAX_CHUNKS\<close> and \<open>MAX_VARS\<close> are the lengths of
  the three tables of the state.
\<close>

record vmConsts =
  chunkCodeMsg :: int
  deleteChunkMsg :: int
  startChunkMsg :: int
  stopChunkMsg :: int
  startAllMsg :: int
  stopAllMsg :: int
  getVarMsg :: int
  setVarMsg :: int
  deleteVarMsg :: int
  deleteCommentMsg :: int
  getVersionMsg :: int
  getAllCodeMsg :: int
  deleteAllCodeMsg :: int
  systemResetMsg :: int
  taskStartedMsg :: int
  taskDoneMsg :: int
  taskReturnedValueMsg :: int
  taskErrorMsg :: int
  outputValueMsg :: int
  varValueMsg :: int
  versionMsg :: int
  pingMsg :: int
  broadcastMsg :: int
  chunkAttributeMsg :: int
  varNameMsg :: int
  commentMsg :: int
  commentPositionMsg :: int
  unusedChunk :: uint8
  startHat :: uint8
  whenConditionHat :: uint8
  broadcastHat :: uint8
  unusedTask :: uint8
  running :: uint8
  PERSISTENT_HEADER_WORDS :: int
  ATTRIBUTE_COUNT :: int
  hatLiteral :: "uint8 list \<Rightarrow> uint8 list option"

text \<open>
  Modelled from the spec: the tagged values of the object memory (mem.h is absent). A
  value is an integer, a string (its bytes), one of the two booleans, a byte array, or
  something else; \<open>isInt\<close>, \<open>IS_CLASS\<close>, \<open>int2obj\<close>, \<open>obj2int\<close> and the
  comparison with \<open>trueObj\<close>/\<open>falseObj\<close> become pattern matching.
\<close>

datatype OBJ =
    IntObj uint32
  | StringObj "uint8 list"
  | trueObj
  | falseObj
  | ByteArrayObj "uint8 list"
  | OtherObj

text \<open>
  Modelled from the spec: the persistent store (persist.c is absent). It is an
  append-only log of records, each with a type, an index byte, an auxiliary byte and a
  body. A reference to a record (the pointer that \<open>appendPersistentRecord\<close> returns) is
  the record's position in the log; \<open>None\<close> is the null pointer.
\<close>

datatype recordType =
    chunkCode | chunkAttribute | chunkDeleted | varName | varDeleted
  | comment | commentPosition | commentDeleted

record persistentRecord =
  recType :: recordType
  recIndex :: int
  recAux :: int
  recBody :: "uint8 list"

text \<open>The fields of a task that runtime.c reads or writes; \<open>taskCode\<close> is the field
  \<open>code\<close> of the C structure.\<close>

record Task =
  status :: uint8
  taskChunkIndex :: uint8
  currentChunkIndex :: uint8
  taskCode :: "nat option"
  ip :: int
  sp :: int
  fp :: int

record CodeChunkRecord =
  code :: "nat option"
  chunkType :: uint8

text \<open>The global variables of runtime.c and of the headers it includes.\<close>

record runtime =
  tasks :: "Task list"
  taskCount :: int
  chunks :: "CodeChunkRecord list"
  vars :: "OBJ list"
  persistentLog :: "persistentRecord list"
  outBuf :: "uint8 list"
  outBufStart :: int
  outBufEnd :: int
  rcvBuf :: "uint8 list"
  rcvByteCount :: int
  lastRcvTime :: uint32

section \<open>The circular output buffer\<close>

definition OUTBUF_SIZE :: int where
  "OUTBUF_SIZE = 1024"

definition OUTBUF_MASK :: int where
  "OUTBUF_MASK = OUTBUF_SIZE - 1"

definition OUTBUF_BYTES :: "runtime \<Rightarrow> int" where
  "OUTBUF_BYTES s = (outBufEnd s - outBufStart s) AND OUTBUF_MASK"

definition queueByte :: "uint8 \<Rightarrow> runtime \<Rightarrow> runtime" where
  "queueByte aByte s =
     s\<lparr>outBuf := (outBuf s)[nat (outBufEnd s) := aByte],
       outBufEnd := (outBufEnd s + 1) AND OUTBUF_MASK\<rparr>"

definition hasOutputSpace :: "int \<Rightarrow> runtime \<Rightarrow> bool" where
  "hasOutputSpace byteCount s \<longleftrightarrow> OUTBUF_MASK - OUTBUF_BYTES s > byteCount"

text \<open>
  \<open>sendMessage\<close> with \<open>DEBUG\<close> false. The argument \<open>data\<close> is \<open>None\<close> for the
  null pointer. The \<open>int\<close> arguments \<open>msgType\<close> and \<open>chunkIndex\<close> are narrowed to
  a byte by the parameter of \<open>queueByte\<close>.
\<close>

definition sendMessage :: "int \<Rightarrow> int \<Rightarrow> int \<Rightarrow> uint8 list option \<Rightarrow> runtime \<Rightarrow> runtime" where
  "sendMessage msgType chunkIndex dataSize data s =
     (case data of
        None \<Rightarrow>
          if \<not> hasOutputSpace 3 s then s
          else queueByte (word_of_int chunkIndex)
                 (queueByte (word_of_int msgType) (queueByte 250 s))
      | Some d \<Rightarrow>
          let totalBytes = 5 + dataSize in
          if \<not> hasOutputSpace totalBytes s then s
          else fold (\<lambda>i. queueByte (d ! i)) [0..<nat dataSize]
                 (queueByte (word_of_int (drop_bit 8 dataSize AND 255))
                   (queueByte (word_of_int (dataSize AND 255))
                     (queueByte (word_of_int chunkIndex)
                       (queueByte (word_of_int msgType) (queueByte 251 s))))))"

text \<open>The bytes of a message in wire order: the header and the first \<open>dataSize\<close>
  bytes of the data.\<close>

definition messageBytes :: "int \<Rightarrow> int \<Rightarrow> int \<Rightarrow> uint8 list option \<Rightarrow> uint8 list" where
  "messageBytes msgType chunkIndex dataSize data =
     (case data of
        None \<Rightarrow> [250, word_of_int msgType, word_of_int chunkIndex]
      | Some d \<Rightarrow>
          [251, word_of_int msgType, word_of_int chunkIndex,
           word_of_int (dataSize AND 255), word_of_int (drop_bit 8 dataSize AND 255)]
          @ take (nat dataSize) d)"

text \<open>The total byte length that \<open>sendMessage\<close> tests against the free space.\<close>

definition messageLength :: "int \<Rightarrow> uint8 list option \<Rightarrow> int" where
  "messageLength dataSize data = (case data of None \<Rightarrow> 3 | Some d \<Rightarrow> 5 + dataSize)"

text \<open>
  The bytes waiting in the ring, oldest first: the order in which \<open>sendNextByte\<close>
  hands them to the host.
\<close>

definition queued :: "runtime \<Rightarrow> uint8 list" where
  "queued s =
     map (\<lambda>k. outBuf s ! nat ((outBufStart s + int k) mod OUTBUF_SIZE))
       [0..<nat (OUTBUF_BYTES s)]"

text \<open>The ring is well formed: the array has its declared size and both offsets are
  masked.\<close>

definition ring_ok :: "runtime \<Rightarrow> bool" where
  "ring_ok s \<longleftrightarrow>
     int (length (outBuf s)) = OUTBUF_SIZE \<and>
     0 \<le> outBufStart s \<and> outBufStart s < OUTBUF_SIZE \<and>
     0 \<le> outBufEnd s \<and> outBufEnd s < OUTBUF_SIZE"

section \<open>The host read routine of the browser simulation (boardie.c)\<close>

text \<open>
  \<open>recvBytes\<close>: the first argument is the JavaScript array \<open>window.recvBuffer\<close>
  (\<open>canReadByte\<close> tests that it is not empty, \<open>nextByte\<close> removes its first
  element), \<open>buf\<close> is the memory the pointer refers to, indexed from the pointer. The
  result is the returned count \<open>total\<close> (here \<open>totalRead\<close>), the memory and the remaining array.
\<close>

fun recvBytes_loop :: "int list \<Rightarrow> (nat \<Rightarrow> uint8) \<Rightarrow> int \<Rightarrow> int \<Rightarrow> int \<times> (nat \<Rightarrow> uint8) \<times> int list" where
  "recvBytes_loop [] buf count totalRead = (totalRead, buf, [])"
| "recvBytes_loop (b # recvBuffer) buf count totalRead =
     (if totalRead \<le> count
      then recvBytes_loop recvBuffer (buf(nat totalRead := word_of_int b)) count (totalRead + 1)
      else (totalRead, buf, b # recvBuffer))"

definition recvBytes :: "int list \<Rightarrow> (nat \<Rightarrow> uint8) \<Rightarrow> int \<Rightarrow> int \<times> (nat \<Rightarrow> uint8) \<times> int list" where
  "recvBytes recvBuffer buf count = recvBytes_loop recvBuffer buf count 0"

section \<open>Task operations\<close>

definition MAX_TASKS :: "runtime \<Rightarrow> nat" where
  "MAX_TASKS s = length (tasks s)"

definition MAX_CHUNKS :: "runtime \<Rightarrow> nat" where
  "MAX_CHUNKS s = length (chunks s)"

definition MAX_VARS :: "runtime \<Rightarrow> nat" where
  "MAX_VARS s = length (vars s)"

text \<open>A task after \<open>memset(&tasks[i], 0, sizeof(Task))\<close>.\<close>

definition zeroTask :: Task where
  "zeroTask = \<lparr>status = 0, taskChunkIndex = 0, currentChunkIndex = 0, taskCode = None,
     ip = 0, sp = 0, fp = 0\<rparr>"

definition initTasks :: "runtime \<Rightarrow> runtime" where
  "initTasks s = s\<lparr>tasks := replicate (MAX_TASKS s) zeroTask, taskCount := 0\<rparr>"

text \<open>The index at which a loop \<open>for (i = 0; i < n; i++) if (P(xs[i])) break;\<close>
  stops: the first index whose entry satisfies \<open>P\<close>, or \<open>n\<close>.\<close>

fun firstIndex :: "('a \<Rightarrow> bool) \<Rightarrow> 'a list \<Rightarrow> nat" where
  "firstIndex P [] = 0"
| "firstIndex P (x # xs) = (if P x then 0 else Suc (firstIndex P xs))"

text \<open>A C string: the bytes before the first zero byte.\<close>

definition strlen :: "uint8 list \<Rightarrow> nat" where
  "strlen str = length (takeWhile (\<lambda>c. c \<noteq> 0) str)"

definition cstring :: "string \<Rightarrow> uint8 list" where
  "cstring str = map of_char str"

definition outputString :: "vmConsts \<Rightarrow> uint8 list \<Rightarrow> runtime \<Rightarrow> runtime" where
  "outputString K str s =
     (let byteCount = (if int (strlen str) > 199 then 199 else int (strlen str));
          data = 2 # map (\<lambda>i. str ! i) [0..<nat byteCount]
      in sendMessage (outputValueMsg K) 255 (byteCount + 1) (Some data) s)"

text \<open>
  \<open>startTaskForChunk\<close>. The result is \<open>None\<close> where the C code reads
  \<open>chunks[chunkIndex]\<close> beyond the end of the chunk table, which the function does
  not guard against.
\<close>

definition startTaskForChunk :: "vmConsts \<Rightarrow> uint8 \<Rightarrow> runtime \<Rightarrow> runtime option" where
  "startTaskForChunk K chunkIndex s =
     (if list_ex (\<lambda>t. chunkIndex = taskChunkIndex t \<and> status t \<noteq> 0)
           (take (nat (taskCount s)) (tasks s))
      then Some s
      else
        let i = firstIndex (\<lambda>t. unusedTask K = status t) (tasks s) in
        if i \<ge> MAX_TASKS s then Some (outputString K (cstring ''No free task entries'') s)
        else if unat chunkIndex \<ge> MAX_CHUNKS s then None
        else Some (sendMessage (taskStartedMsg K) (uint chunkIndex) 0 None
               (s\<lparr>tasks := (tasks s)[i :=
                      \<lparr>status = running K, taskChunkIndex = chunkIndex,
                       currentChunkIndex = chunkIndex,
                       taskCode = code (chunks s ! unat chunkIndex),
                       ip = PERSISTENT_HEADER_WORDS K, sp = 0, fp = 0\<rparr>],
                  taskCount := (if int i \<ge> taskCount s then int i + 1 else taskCount s)\<rparr>)))"

definition stopTaskForChunk :: "vmConsts \<Rightarrow> uint8 \<Rightarrow> runtime \<Rightarrow> runtime" where
  "stopTaskForChunk K chunkIndex s =
     (let i = firstIndex (\<lambda>t. chunkIndex = taskChunkIndex t) (tasks s) in
      if i \<ge> MAX_TASKS s then s
      else sendMessage (taskDoneMsg K) (uint chunkIndex) 0 None
             (s\<lparr>tasks := (tasks s)[i := zeroTask],
                taskCount := (if int i = taskCount s - 1 then taskCount s - 1 else taskCount s)\<rparr>))"

definition stopAllTasks :: "vmConsts \<Rightarrow> runtime \<Rightarrow> runtime" where
  "stopAllTasks K s =
     initTasks
       (fold (\<lambda>t s'. if status t \<noteq> 0
                      then sendMessage (taskDoneMsg K) (uint (taskChunkIndex t)) 0 None s'
                      else s')
          (take (nat (taskCount s)) (tasks s)) s)"

text \<open>The loop of \<open>startAll\<close> over the chunk indices; the \<open>int\<close> loop variable is
  narrowed to the \<open>uint8\<close> parameter of \<open>startTaskForChunk\<close>.\<close>

fun startAll_loop :: "vmConsts \<Rightarrow> nat list \<Rightarrow> runtime \<Rightarrow> runtime option" where
  "startAll_loop K [] s = Some s"
| "startAll_loop K (i # rest) s =
     (let chunkType = chunkType (chunks s ! i) in
      if startHat K = chunkType \<or> whenConditionHat K = chunkType
      then (case startTaskForChunk K (of_nat i) s of
              None \<Rightarrow> None
            | Some s' \<Rightarrow> startAll_loop K rest s')
      else startAll_loop K rest s)"

definition startAll :: "vmConsts \<Rightarrow> runtime \<Rightarrow> runtime option" where
  "startAll K s = startAll_loop K [0..<MAX_CHUNKS s] (stopAllTasks K s)"

text \<open>
  \<open>broadcastMatches\<close>. The result is \<open>None\<close> where the C code dereferences a null
  code pointer. The code of a chunk is the body of the persistent record that its code
  pointer refers to.
\<close>

definition broadcastMatches :: "vmConsts \<Rightarrow> uint8 \<Rightarrow> uint8 list \<Rightarrow> int \<Rightarrow> runtime \<Rightarrow> bool option" where
  "broadcastMatches K chunkIndex msg byteCount s =
     (if unat chunkIndex \<ge> MAX_CHUNKS s then None
      else case code (chunks s ! unat chunkIndex) of
        None \<Rightarrow> None
      | Some r \<Rightarrow>
          if r \<ge> length (persistentLog s) then None
          else case hatLiteral K (recBody (persistentLog s ! r)) of
            None \<Rightarrow> Some False
          | Some hatArg \<Rightarrow>
              if int (strlen hatArg) \<noteq> byteCount then Some False
              else Some (list_all (\<lambda>i. hatArg ! i = msg ! i) [0..<nat byteCount]))"

fun startReceiversOfBroadcast_loop :: "vmConsts \<Rightarrow> uint8 list \<Rightarrow> int \<Rightarrow> nat list \<Rightarrow> runtime \<Rightarrow> runtime option" where
  "startReceiversOfBroadcast_loop K msg byteCount [] s = Some s"
| "startReceiversOfBroadcast_loop K msg byteCount (i # rest) s =
     (if broadcastHat K = chunkType (chunks s ! i)
      then (case broadcastMatches K (of_nat i) msg byteCount s of
              None \<Rightarrow> None
            | Some False \<Rightarrow> startReceiversOfBroadcast_loop K msg byteCount rest s
            | Some True \<Rightarrow>
                (case startTaskForChunk K (of_nat i) s of
                   None \<Rightarrow> None
                 | Some s' \<Rightarrow> startReceiversOfBroadcast_loop K msg byteCount rest s'))
      else startReceiversOfBroadcast_loop K msg byteCount rest s)"

definition startReceiversOfBroadcast :: "vmConsts \<Rightarrow> uint8 list \<Rightarrow> int \<Rightarrow> runtime \<Rightarrow> runtime option" where
  "startReceiversOfBroadcast K msg byteCount s =
     startReceiversOfBroadcast_loop K msg byteCount [0..<MAX_CHUNKS s] s"

section \<open>Store and delete operations\<close>

text \<open>
  Modelled from the spec: \<open>appendPersistentRecord\<close> (persist.c is absent) appends one
  record to the log and returns a reference to it. The body is the first
  \<open>byteCount\<close> bytes of the data; a null data pointer is the empty list.
\<close>

definition appendPersistentRecord :: "recordType \<Rightarrow> int \<Rightarrow> int \<Rightarrow> int \<Rightarrow> uint8 list \<Rightarrow> runtime \<Rightarrow> nat option \<times> runtime" where
  "appendPersistentRecord recordType recID extra byteCount data s =
     (Some (length (persistentLog s)),
      s\<lparr>persistentLog := persistentLog s @
           [\<lparr>recType = recordType, recIndex = recID, recAux = extra,
             recBody = take (nat byteCount) data\<rparr>]\<rparr>)"

definition storeCodeChunk :: "uint8 \<Rightarrow> int \<Rightarrow> uint8 list \<Rightarrow> runtime \<Rightarrow> runtime" where
  "storeCodeChunk chunkIndex byteCount data s =
     (if unat chunkIndex \<ge> MAX_CHUNKS s then s
      else
        let chunkType = uint (data ! 0);
            (persistenChunk, s1) =
               appendPersistentRecord chunkCode (uint chunkIndex) chunkType (byteCount - 1)
                 (drop 1 data) s
        in s1\<lparr>chunks := (chunks s1)[unat chunkIndex :=
                 \<lparr>code = persistenChunk, chunkType = word_of_int chunkType\<rparr>]\<rparr>)"

definition storeChunkAttribute :: "vmConsts \<Rightarrow> uint8 \<Rightarrow> int \<Rightarrow> uint8 list \<Rightarrow> runtime \<Rightarrow> runtime" where
  "storeChunkAttribute K chunkIndex byteCount data s =
     (let attributeID = data ! 0 in
      if unat chunkIndex \<ge> MAX_CHUNKS s \<or> uint attributeID \<ge> ATTRIBUTE_COUNT K then s
      else snd (appendPersistentRecord chunkAttribute (uint chunkIndex) (uint attributeID)
                  (byteCount - 1) (drop 1 data) s))"

definition storeVarName :: "uint8 \<Rightarrow> int \<Rightarrow> uint8 list \<Rightarrow> runtime \<Rightarrow> runtime" where
  "storeVarName varIndex byteCount data s =
     snd (appendPersistentRecord varName (uint varIndex) 0 byteCount data s)"

definition storeComment :: "uint8 \<Rightarrow> int \<Rightarrow> uint8 list \<Rightarrow> runtime \<Rightarrow> runtime" where
  "storeComment commentIndex byteCount data s =
     snd (appendPersistentRecord comment (uint commentIndex) 0 byteCount data s)"

definition storeCommentPosition :: "uint8 \<Rightarrow> int \<Rightarrow> uint8 list \<Rightarrow> runtime \<Rightarrow> runtime" where
  "storeCommentPosition commentIndex byteCount data s =
     (if byteCount \<noteq> 4 then s
      else snd (appendPersistentRecord commentPosition (uint commentIndex) 0 byteCount data s))"

definition deleteCodeChunk :: "vmConsts \<Rightarrow> uint8 \<Rightarrow> runtime \<Rightarrow> runtime" where
  "deleteCodeChunk K chunkIndex s =
     (if unat chunkIndex \<ge> MAX_CHUNKS s then s
      else
        let s1 = stopTaskForChunk K chunkIndex s;
            s2 = s1\<lparr>chunks := (chunks s1)[unat chunkIndex :=
                     \<lparr>code = None, chunkType = unusedChunk K\<rparr>]\<rparr>
        in snd (appendPersistentRecord chunkDeleted (uint chunkIndex) 0 0 [] s2))"

text \<open>A chunk entry after \<open>memset(chunks, 0, sizeof(chunks))\<close>.\<close>

definition zeroChunk :: CodeChunkRecord where
  "zeroChunk = \<lparr>code = None, chunkType = 0\<rparr>"

definition deleteAllChunks :: "vmConsts \<Rightarrow> runtime \<Rightarrow> runtime" where
  "deleteAllChunks K s =
     (let s1 = stopAllTasks K s;
          s2 = fold (\<lambda>chunkIndex s'.
                  snd (appendPersistentRecord chunkDeleted (int chunkIndex) 0 0 [] s'))
                 [0..<MAX_CHUNKS s1] s1
      in s2\<lparr>chunks := replicate (MAX_CHUNKS s2) zeroChunk\<rparr>)"

definition deleteVar :: "uint8 \<Rightarrow> runtime \<Rightarrow> runtime" where
  "deleteVar varIndex s =
     (if unat varIndex \<ge> MAX_VARS s then s
      else snd (appendPersistentRecord varDeleted (uint varIndex) 0 0 []
                  (s\<lparr>vars := (vars s)[unat varIndex := IntObj 0]\<rparr>)))"

definition deleteComment :: "uint8 \<Rightarrow> runtime \<Rightarrow> runtime" where
  "deleteComment commentIndex s =
     snd (appendPersistentRecord commentDeleted (uint commentIndex) 0 0 [] s)"

section \<open>Values sent to and received from the IDE\<close>

text \<open>
  The body that \<open>sendValueMessage\<close> assembles in its local array \<open>data\<close> (the bytes
  it has written, the type byte first), or \<open>None\<close> where it sends nothing.
  \<open>obj2str\<close> of a string is its bytes, read as a C string.
\<close>

definition sendValueMessage_data :: "OBJ \<Rightarrow> uint8 list option" where
  "sendValueMessage_data v =
     (let maxBytes = (499 :: nat) in
      case v of
        IntObj n \<Rightarrow>
          Some [1,
                ucast (n AND 0xFF),
                ucast (signed_drop_bit 8 n AND 0xFF),
                ucast (signed_drop_bit 16 n AND 0xFF),
                ucast (signed_drop_bit 24 n AND 0xFF)]
      | StringObj str \<Rightarrow>
          let byteCount = (if strlen str > maxBytes then maxBytes else strlen str)
          in Some (2 # map (\<lambda>i. str ! i) [0..<byteCount])
      | trueObj \<Rightarrow> Some [3, 1]
      | falseObj \<Rightarrow> Some [3, 0]
      | ByteArrayObj bytes \<Rightarrow>
          let byteCount = (if length bytes > maxBytes then maxBytes else length bytes)
          in Some (4 # map (\<lambda>i. bytes ! i) [0..<byteCount])
      | OtherObj \<Rightarrow> None)"

definition sendValueMessage :: "uint8 \<Rightarrow> uint8 \<Rightarrow> OBJ \<Rightarrow> runtime \<Rightarrow> runtime" where
  "sendValueMessage msgType chunkOrVarIndex v s =
     (case sendValueMessage_data v of
        None \<Rightarrow> s
      | Some data \<Rightarrow>
          sendMessage (uint msgType) (uint chunkOrVarIndex) (int (length data)) (Some data) s)"

definition outputValue :: "vmConsts \<Rightarrow> OBJ \<Rightarrow> int \<Rightarrow> runtime \<Rightarrow> runtime" where
  "outputValue K v chunkIndex s =
     sendValueMessage (word_of_int (outputValueMsg K)) (word_of_int chunkIndex) v s"

definition sendTaskDone :: "vmConsts \<Rightarrow> uint8 \<Rightarrow> runtime \<Rightarrow> runtime" where
  "sendTaskDone K chunkIndex s = sendMessage (taskDoneMsg K) (uint chunkIndex) 0 None s"

definition sendVariableValue :: "vmConsts \<Rightarrow> int \<Rightarrow> runtime \<Rightarrow> runtime" where
  "sendVariableValue K varID s =
     (if varID \<ge> 0 \<and> varID < int (MAX_VARS s)
      then sendValueMessage (word_of_int (varValueMsg K)) (word_of_int varID)
             (vars s ! nat varID) s
      else s)"

text \<open>
  \<open>setVariableValue\<close>. The bytes are widened to \<open>int\<close> before they are shifted;
  the shifts are taken in 32-bit two's complement. Modelled from the spec:
  \<open>newStringFromBytes\<close> (mem.c is absent) makes a string of the given bytes.
\<close>

definition setVariableValue :: "int \<Rightarrow> int \<Rightarrow> uint8 list \<Rightarrow> runtime \<Rightarrow> runtime" where
  "setVariableValue varID byteCount data s =
     (if varID \<ge> 0 \<and> varID < int (MAX_VARS s) then
        let type = data ! 0 in
        if type = 1 then
          s\<lparr>vars := (vars s)[nat varID :=
               IntObj (push_bit 24 (ucast (data ! 4)) OR push_bit 16 (ucast (data ! 3))
                       OR push_bit 8 (ucast (data ! 2)) OR ucast (data ! 1))]\<rparr>
        else if type = 2 then
          (if byteCount \<ge> 1
           then s\<lparr>vars := (vars s)[nat varID :=
                    StringObj (take (nat (byteCount - 1)) (drop 1 data))]\<rparr>
           else s)
        else if type = 3 then
          s\<lparr>vars := (vars s)[nat varID := (if data ! 1 \<noteq> 0 then trueObj else falseObj)]\<rparr>
        else s
      else s)"

section \<open>Receiving messages from the IDE\<close>

definition RCVBUF_SIZE :: int where
  "RCVBUF_SIZE = 1024"

text \<open>The scanning loop of \<open>skipToStartByteAfter\<close>: its result is the value of
  \<open>nextStart\<close> when the loop ends.\<close>

function skipToStartByteAfter_scan :: "uint8 list \<Rightarrow> int \<Rightarrow> int \<Rightarrow> int" where
  "skipToStartByteAfter_scan buf byteCount i =
     (if i < byteCount then
        (let b = buf ! nat i in
         if 0xFA = b \<or> 0xFB = b then
           (if i + 1 < byteCount \<and> (buf ! nat (i + 1) < 0x01 \<or> buf ! nat (i + 1) > 0x20)
            then skipToStartByteAfter_scan buf byteCount (i + 1)
            else i)
         else skipToStartByteAfter_scan buf byteCount (i + 1))
      else - 1)"
  by pat_completeness auto
termination
  by (relation "measure (\<lambda>(buf, byteCount, i). nat (byteCount - i))") auto

text \<open>The copying loop of \<open>skipToStartByteAfter\<close>, with \<open>dst\<close> as an index.\<close>

function skipToStartByteAfter_copy :: "uint8 list \<Rightarrow> int \<Rightarrow> int \<Rightarrow> int \<Rightarrow> uint8 list" where
  "skipToStartByteAfter_copy buf byteCount i dst =
     (if i < byteCount
      then skipToStartByteAfter_copy (buf[nat dst := buf ! nat i]) byteCount (i + 1) (dst + 1)
      else buf)"
  by pat_completeness auto
termination
  by (relation "measure (\<lambda>(buf, byteCount, i, dst). nat (byteCount - i))") auto

declare skipToStartByteAfter_scan.simps [simp del]
declare skipToStartByteAfter_copy.simps [simp del]

definition skipToStartByteAfter :: "int \<Rightarrow> runtime \<Rightarrow> runtime" where
  "skipToStartByteAfter startIndex s =
     (let nextStart = skipToStartByteAfter_scan (rcvBuf s) (rcvByteCount s) startIndex in
      if - 1 = nextStart then s\<lparr>rcvByteCount := 0\<rparr>
      else s\<lparr>rcvBuf := skipToStartByteAfter_copy (rcvBuf s) (rcvByteCount s) nextStart 0,
             rcvByteCount := rcvByteCount s - nextStart\<rparr>)"

text \<open>
  The functions that the embedding must provide, over a host state \<open>'h\<close> of its
  own: \<open>readBytes\<close> gets the number of bytes it may store and yields the bytes it
  has stored (their number is its result), \<open>sendByte\<close> yields 1 when it accepts the
  byte, \<open>microsecs\<close> reads the clock, \<open>boardType\<close> is a C string. Two handlers of
  short messages are parameters as well: \<open>systemReset\<close>, which is the reboot hook of
  the host, and \<open>sendAllCode\<close>, which walks the memory layout of the persistent store
  and waits for the host to drain the ring.
\<close>

record 'h hostAdapter =
  readBytes :: "int \<Rightarrow> 'h \<Rightarrow> uint8 list \<times> 'h"
  sendByte :: "uint8 \<Rightarrow> 'h \<Rightarrow> int \<times> 'h"
  microsecs :: "'h \<Rightarrow> uint32 \<times> 'h"
  boardType :: "uint8 list"
  systemReset :: "runtime \<times> 'h \<Rightarrow> (runtime \<times> 'h) option"
  sendAllCode :: "runtime \<times> 'h \<Rightarrow> (runtime \<times> 'h) option"

definition sendNextByte :: "'h hostAdapter \<Rightarrow> runtime \<times> 'h \<Rightarrow> runtime \<times> 'h" where
  "sendNextByte H sh =
     (let (s, h) = sh in
      if outBufStart s \<noteq> outBufEnd s then
        (let (accepted, h') = sendByte H (outBuf s ! nat (outBufStart s)) h in
         if 1 = accepted
         then (s\<lparr>outBufStart := (outBufStart s + 1) AND OUTBUF_MASK\<rparr>, h')
         else (s, h'))
      else (s, h))"

text \<open>\<open>receiveTimeout\<close>, given the value that \<open>microsecs\<close> returned.\<close>

definition receiveTimeout :: "uint32 \<Rightarrow> runtime \<Rightarrow> bool \<times> runtime" where
  "receiveTimeout usecs s =
     (let s' = (if usecs < lastRcvTime s then s\<lparr>lastRcvTime := 0\<rparr> else s)
      in (usecs - lastRcvTime s' > 20000, s'))"

definition VM_VERSION :: "uint8 list" where
  "VM_VERSION = cstring ''v021''"

definition sendVersionString :: "vmConsts \<Rightarrow> 'h hostAdapter \<Rightarrow> runtime \<Rightarrow> runtime" where
  "sendVersionString K H s =
     (let str = take 99 (cstring '' '' @ VM_VERSION @ cstring '' '' @
                           takeWhile (\<lambda>c. c \<noteq> 0) (boardType H));
          str = str[0 := 2]
      in sendMessage (versionMsg K) 0 (int (strlen str)) (Some str) s)"

text \<open>The \<open>switch\<close> of \<open>processShortMessage\<close>: the case labels are tried in the
  order of the source.\<close>

definition processShortMessage_switch :: "vmConsts \<Rightarrow> 'h hostAdapter \<Rightarrow> int \<Rightarrow> int \<Rightarrow> runtime \<times> 'h \<Rightarrow> (runtime \<times> 'h) option" where
  "processShortMessage_switch K H cmd chunkIndex sh =
     (let (s, h) = sh in
      if cmd = deleteChunkMsg K then Some (deleteCodeChunk K (word_of_int chunkIndex) s, h)
      else if cmd = startChunkMsg K then
        map_option (\<lambda>s'. (s', h)) (startTaskForChunk K (word_of_int chunkIndex) s)
      else if cmd = stopChunkMsg K then Some (stopTaskForChunk K (word_of_int chunkIndex) s, h)
      else if cmd = startAllMsg K then map_option (\<lambda>s'. (s', h)) (startAll K s)
      else if cmd = stopAllMsg K then
        Some (outputString K (cstring ''All tasks stopped'') (stopAllTasks K s), h)
      else if cmd = getVarMsg K then Some (sendVariableValue K chunkIndex s, h)
      else if cmd = deleteVarMsg K then Some (deleteVar (word_of_int chunkIndex) s, h)
      else if cmd = deleteCommentMsg K then Some (deleteComment (word_of_int chunkIndex) s, h)
      else if cmd = getVersionMsg K then Some (sendVersionString K H s, h)
      else if cmd = getAllCodeMsg K then sendAllCode H (s, h)
      else if cmd = deleteAllCodeMsg K then Some (deleteAllChunks K s, h)
      else if cmd = systemResetMsg K then systemReset H (s, h)
      else if cmd = pingMsg K then Some (sendMessage (pingMsg K) 0 0 None s, h)
      else Some (s, h))"

definition processShortMessage :: "vmConsts \<Rightarrow> 'h hostAdapter \<Rightarrow> runtime \<times> 'h \<Rightarrow> (runtime \<times> 'h) option" where
  "processShortMessage K H sh =
     (let (s, h) = sh in
      if rcvByteCount s < 3 then
        (let (usecs, h1) = microsecs H h;
             (timeout, s1) = receiveTimeout usecs s
         in Some (if timeout then skipToStartByteAfter 1 s1 else s1, h1))
      else
        let cmd = uint (rcvBuf s ! 1);
            chunkIndex = uint (rcvBuf s ! 2)
        in case processShortMessage_switch K H cmd chunkIndex (s, h) of
             None \<Rightarrow> None
           | Some (s', h') \<Rightarrow> Some (skipToStartByteAfter 3 s', h'))"

text \<open>The \<open>switch\<close> of \<open>processLongMessage\<close>; \<open>data\<close> is the receive buffer from
  index 5 on.\<close>

definition processLongMessage_switch :: "vmConsts \<Rightarrow> int \<Rightarrow> int \<Rightarrow> int \<Rightarrow> uint8 list \<Rightarrow> runtime \<Rightarrow> runtime option" where
  "processLongMessage_switch K cmd chunkIndex bodyBytes data s =
     (if cmd = chunkCodeMsg K then Some (storeCodeChunk (word_of_int chunkIndex) bodyBytes data s)
      else if cmd = setVarMsg K then Some (setVariableValue chunkIndex bodyBytes data s)
      else if cmd = broadcastMsg K then startReceiversOfBroadcast K data bodyBytes s
      else if cmd = chunkAttributeMsg K then
        Some (storeChunkAttribute K (word_of_int chunkIndex) bodyBytes data s)
      else if cmd = varNameMsg K then Some (storeVarName (word_of_int chunkIndex) bodyBytes data s)
      else if cmd = commentMsg K then Some (storeComment (word_of_int chunkIndex) bodyBytes data s)
      else if cmd = commentPositionMsg K then
        Some (storeCommentPosition (word_of_int chunkIndex) bodyBytes data s)
      else Some s)"

definition msgLengthOf :: "runtime \<Rightarrow> int" where
  "msgLengthOf s = push_bit 8 (uint (rcvBuf s ! 4)) OR uint (rcvBuf s ! 3)"

definition processLongMessage :: "vmConsts \<Rightarrow> 'h hostAdapter \<Rightarrow> runtime \<times> 'h \<Rightarrow> (runtime \<times> 'h) option" where
  "processLongMessage K H sh =
     (let (s, h) = sh;
          msgLength = msgLengthOf s
      in
      if rcvByteCount s < 5 \<or> rcvByteCount s < 5 + msgLength then
        (let (usecs, h1) = microsecs H h;
             (timeout, s1) = receiveTimeout usecs s
         in Some (if timeout then skipToStartByteAfter 1 s1 else s1, h1))
      else if 0xFE \<noteq> rcvBuf s ! nat (5 + msgLength - 1) then Some (skipToStartByteAfter 1 s, h)
      else
        let cmd = uint (rcvBuf s ! 1);
            chunkIndex = uint (rcvBuf s ! 2);
            bodyBytes = msgLength - 1
        in case processLongMessage_switch K cmd chunkIndex bodyBytes (drop 5 (rcvBuf s)) s of
             None \<Rightarrow> None
           | Some s' \<Rightarrow> Some (skipToStartByteAfter (5 + msgLength) s', h))"

text \<open>
  One call \<open>readBytes(&rcvBuf[rcvByteCount], RCVBUF_SIZE - rcvByteCount)\<close> followed by
  \<open>rcvByteCount += bytesRead\<close>. The result is \<open>None\<close> where the host stores bytes
  beyond the end of \<open>rcvBuf\<close>.
\<close>

definition readIntoRcvBuf :: "'h hostAdapter \<Rightarrow> runtime \<times> 'h \<Rightarrow> (int \<times> runtime \<times> 'h) option" where
  "readIntoRcvBuf H sh =
     (let (s, h) = sh;
          (bytes, h') = readBytes H (RCVBUF_SIZE - rcvByteCount s) h;
          bytesRead = int (length bytes)
      in if rcvByteCount s + bytesRead > RCVBUF_SIZE then None
         else Some (bytesRead,
                s\<lparr>rcvBuf := take (nat (rcvByteCount s)) (rcvBuf s) @ bytes @
                             drop (nat (rcvByteCount s) + length bytes) (rcvBuf s),
                  rcvByteCount := rcvByteCount s + bytesRead\<rparr>, h'))"

text \<open>The body of the \<open>while (bytesRead > 0)\<close> loop of \<open>processMessage\<close>, repeated
  while it reads bytes. The loop does not end as long as the host delivers bytes.\<close>

partial_function (option) processMessage_loop :: "'h hostAdapter \<Rightarrow> runtime \<times> 'h \<Rightarrow> (runtime \<times> 'h) option" where
  "processMessage_loop H sh =
     (case readIntoRcvBuf H sh of
        None \<Rightarrow> None
      | Some (bytesRead, s1, h1) \<Rightarrow>
          (case microsecs H h1 of (usecs, h2) \<Rightarrow>
             if bytesRead > 0
             then processMessage_loop H (s1\<lparr>lastRcvTime := usecs\<rparr>, h2)
             else Some (s1\<lparr>lastRcvTime := usecs\<rparr>, h2)))"

definition processMessage :: "vmConsts \<Rightarrow> 'h hostAdapter \<Rightarrow> runtime \<times> 'h \<Rightarrow> (runtime \<times> 'h) option" where
  "processMessage K H sh =
     (case readIntoRcvBuf H (sendNextByte H sh) of
        None \<Rightarrow> None
      | Some (bytesRead, s1, h1) \<Rightarrow>
          if rcvByteCount s1 = 0 then Some (s1, h1)
          else
            (case (if bytesRead > 0 then processMessage_loop H (s1, h1) else Some (s1, h1)) of
               None \<Rightarrow> None
             | Some (s2, h2) \<Rightarrow>
                 let firstByte = rcvBuf s2 ! 0 in
                 if 0xFA = firstByte then processShortMessage K H (s2, h2)
                 else if 0xFB = firstByte then processLongMessage K H (s2, h2)
                 else Some (skipToStartByteAfter 1 s2, h2)))"

section \<open>Sequences of dispatcher operations\<close>

datatype dispatcherOp =
    StartTaskForChunk uint8
  | StopTaskForChunk uint8
  | StartAll
  | StopAllTasks
  | StartReceiversOfBroadcast "uint8 list" int
  | DeleteCodeChunk uint8
  | DeleteAllChunks

fun dispatcherCall :: "vmConsts \<Rightarrow> dispatcherOp \<Rightarrow> runtime \<Rightarrow> runtime option" where
  "dispatcherCall K (StartTaskForChunk i) s = startTaskForChunk K i s"
| "dispatcherCall K (StopTaskForChunk i) s = Some (stopTaskForChunk K i s)"
| "dispatcherCall K StartAll s = startAll K s"
| "dispatcherCall K StopAllTasks s = Some (stopAllTasks K s)"
| "dispatcherCall K (StartReceiversOfBroadcast msg byteCount) s =
     startReceiversOfBroadcast K msg byteCount s"
| "dispatcherCall K (DeleteCodeChunk i) s = Some (deleteCodeChunk K i s)"
| "dispatcherCall K DeleteAllChunks s = Some (deleteAllChunks K s)"

fun dispatcherCalls :: "vmConsts \<Rightarrow> dispatcherOp list \<Rightarrow> runtime \<Rightarrow> runtime option" where
  "dispatcherCalls K [] s = Some s"
| "dispatcherCalls K (c # cs) s =
     (case dispatcherCall K c s of None \<Rightarrow> None | Some s' \<Rightarrow> dispatcherCalls K cs s')"

text \<open>The number of task entries with a status other than \<open>unusedTask\<close> that are
  bound to a chunk index.\<close>

definition tasksForChunk :: "vmConsts \<Rightarrow> uint8 \<Rightarrow> runtime \<Rightarrow> nat" where
  "tasksForChunk K chunkIndex s =
     length (filter (\<lambda>t. status t \<noteq> unusedTask K \<and> taskChunkIndex t = chunkIndex) (tasks s))"

text \<open>
  The invariant of the task table: \<open>taskCount\<close> lies within the table, every entry
  from \<open>taskCount\<close> on is unused, and two entries that are in use are bound to
  different chunks.
\<close>

definition tasks_inv :: "vmConsts \<Rightarrow> runtime \<Rightarrow> bool" where
  "tasks_inv K s \<longleftrightarrow>
     0 \<le> taskCount s \<and> taskCount s \<le> int (MAX_TASKS s) \<and>
     (\<forall>i < MAX_TASKS s. taskCount s \<le> int i \<longrightarrow> status (tasks s ! i) = unusedTask K) \<and>
     (\<forall>i < MAX_TASKS s. \<forall>j < MAX_TASKS s.
        status (tasks s ! i) \<noteq> unusedTask K \<and> status (tasks s ! j) \<noteq> unusedTask K \<and>
        taskChunkIndex (tasks s ! i) = taskChunkIndex (tasks s ! j) \<longrightarrow> i = j)"

section \<open>Example constants and states\<close>

text \<open>One assignment of the constants, for the examples: distinct message types within
  the legal range, the chunk types and statuses numbered from zero.\<close>

definition exampleConsts :: vmConsts where
  "exampleConsts = \<lparr>chunkCodeMsg = 1, deleteChunkMsg = 2, startChunkMsg = 3, stopChunkMsg = 4,
     startAllMsg = 5, stopAllMsg = 6, getVarMsg = 7, setVarMsg = 8, deleteVarMsg = 10,
     deleteCommentMsg = 11, getVersionMsg = 12, getAllCodeMsg = 13, deleteAllCodeMsg = 14,
     systemResetMsg = 15, taskStartedMsg = 16, taskDoneMsg = 17, taskReturnedValueMsg = 18,
     taskErrorMsg = 19, outputValueMsg = 20, varValueMsg = 21, versionMsg = 22, pingMsg = 26,
     broadcastMsg = 27, chunkAttributeMsg = 28, varNameMsg = 29, commentMsg = 30,
     commentPositionMsg = 31, unusedChunk = 0, startHat = 4, whenConditionHat = 5,
     broadcastHat = 6, unusedTask = 0, running = 1, PERSISTENT_HEADER_WORDS = 2,
     ATTRIBUTE_COUNT = 4, hatLiteral = (\<lambda>body. Some (drop 8 body))\<rparr>"

text \<open>A state with no tables and an empty ring, for the examples.\<close>

definition emptyRing :: runtime where
  "emptyRing = \<lparr>tasks = [], taskCount = 0, chunks = [], vars = [], persistentLog = [],
     outBuf = replicate 1024 0, outBufStart = 0, outBufEnd = 0,
     rcvBuf = replicate 1024 0, rcvByteCount = 0, lastRcvTime = 0\<rparr>"

text \<open>A state with two task entries and three chunk entries, the second of them a
  start hat, before any task has been started.\<close>

definition twoTasks :: runtime where
  "twoTasks = initTasks (emptyRing\<lparr>tasks := [zeroTask, zeroTask],
     chunks := [zeroChunk, \<lparr>code = Some 0, chunkType = 4\<rparr>, zeroChunk]\<rparr>)"

text \<open>A table of one task entry, in use for chunk 1; chunk 2 has no task and there is
  no free entry.\<close>

definition oneTaskFull :: runtime where
  "oneTaskFull = emptyRing\<lparr>
     tasks := [\<lparr>status = 1, taskChunkIndex = 1, currentChunkIndex = 1, taskCode = None,
                ip = 2, sp = 0, fp = 0\<rparr>],
     taskCount := 1,
     chunks := [zeroChunk, zeroChunk, zeroChunk]\<rparr>"

text \<open>A table whose first entry is free and whose second entry runs chunk 0.\<close>

definition chunkZeroRunning :: runtime where
  "chunkZeroRunning = emptyRing\<lparr>
     tasks := [zeroTask,
               \<lparr>status = 1, taskChunkIndex = 0, currentChunkIndex = 0, taskCode = Some 0,
                ip = 2, sp = 0, fp = 0\<rparr>],
     taskCount := 2,
     chunks := [\<lparr>code = Some 0, chunkType = 4\<rparr>]\<rparr>"

text \<open>The case labels of the \<open>switch\<close> of \<open>processShortMessage\<close> are
  distinct constants, as C requires of them, so that the order in which the model tries
  them does not matter.\<close>

definition shortCaseLabelsDistinct :: "vmConsts \<Rightarrow> bool" where
  "shortCaseLabelsDistinct K \<longleftrightarrow>
     distinct [deleteChunkMsg K, startChunkMsg K, stopChunkMsg K, startAllMsg K, stopAllMsg K,
       getVarMsg K, deleteVarMsg K, deleteCommentMsg K, getVersionMsg K, getAllCodeMsg K,
       deleteAllCodeMsg K, systemResetMsg K, pingMsg K]"

text \<open>The number of records of a type in the persistent log.\<close>

definition countRecords :: "recordType \<Rightarrow> runtime \<Rightarrow> nat" where
  "countRecords ty s = length (filter (\<lambda>r. recType r = ty) (persistentLog s))"

text \<open>The record that \<open>deleteCodeChunk\<close> and \<open>deleteAllChunks\<close> append for a chunk
  index.\<close>

definition chunkDeletedRecord :: "nat \<Rightarrow> persistentRecord" where
  "chunkDeletedRecord chunkIndex =
     \<lparr>recType = chunkDeleted, recIndex = int chunkIndex, recAux = 0, recBody = []\<rparr>"

text \<open>A table of eight chunk entries into which chunks 1, 2 and 5 have been stored,
  each with the type byte 4 and four bytes of code.\<close>

definition threeChunks :: runtime where
  "threeChunks =
     storeCodeChunk 5 5 [4, 50, 51, 52, 53]
       (storeCodeChunk 2 5 [4, 20, 21, 22, 23]
         (storeCodeChunk 1 5 [4, 10, 11, 12, 13]
           (emptyRing\<lparr>tasks := [zeroTask, zeroTask], chunks := replicate 8 zeroChunk\<rparr>)))"

text \<open>A host for the examples. Its state is the list of bytes that the IDE has sent and
  the board has not read yet, and the list of bytes that the board has put on the wire.
  It delivers as many waiting bytes as it is asked for, accepts every byte, and its clock
  stands still.\<close>

definition listHost :: "(uint8 list \<times> uint8 list) hostAdapter" where
  "listHost =
     \<lparr>readBytes = (\<lambda>n (inbound, wire). (take (nat n) inbound, (drop (nat n) inbound, wire))),
      sendByte = (\<lambda>b (inbound, wire). (1, (inbound, wire @ [b]))),
      microsecs = (\<lambda>h. (0, h)),
      boardType = cstring ''Boardie'',
      systemReset = (\<lambda>sh. None),
      sendAllCode = (\<lambda>sh. Some sh)\<rparr>"

text \<open>A state with one variable, for the examples.\<close>

definition oneVar :: runtime where
  "oneVar = emptyRing\<lparr>vars := [IntObj 0]\<rparr>"

text \<open>
  A position of the receive buffer at which \<open>skipToStartByteAfter\<close> stops: the byte
  is a start byte, and the byte after it, if one is buffered, is a legal message type.
\<close>

definition acceptableStart :: "uint8 list \<Rightarrow> int \<Rightarrow> int \<Rightarrow> bool" where
  "acceptableStart buf byteCount i \<longleftrightarrow>
     (buf ! nat i = 0xFA \<or> buf ! nat i = 0xFB) \<and>
     (i + 1 < byteCount \<longrightarrow> 0x01 \<le> buf ! nat (i + 1) \<and> buf ! nat (i + 1) \<le> 0x20)"

text \<open>A number of calls of \<open>processMessage\<close>, one after the other.\<close>

fun processMessages :: "vmConsts \<Rightarrow> 'h hostAdapter \<Rightarrow> nat \<Rightarrow> runtime \<times> 'h \<Rightarrow> (runtime \<times> 'h) option" where
  "processMessages K H 0 sh = Some sh"
| "processMessages K H (Suc n) sh =
     (case processMessage K H sh of None \<Rightarrow> None | Some sh' \<Rightarrow> processMessages K H n sh')"

text \<open>A receive buffer that holds a zero byte and then a start byte, which is its last
  byte.\<close>

definition trailingStart :: runtime where
  "trailingStart = emptyRing\<lparr>rcvBuf := 0 # 0xFA # replicate 1022 0, rcvByteCount := 2\<rparr>"

text \<open>A receive buffer that holds a complete long frame for \<open>chunkCodeMsg\<close> (type 1 in
  the example constants) with chunk index 3 and length 2, whose last byte is 0 instead of
  the terminator.\<close>

definition badTerminator :: runtime where
  "badTerminator = emptyRing\<lparr>chunks := replicate 8 zeroChunk,
     rcvBuf := [0xFB, 1, 3, 2, 0, 4, 0] @ replicate 1017 0, rcvByteCount := 7\<rparr>"

section \<open>Properties of the output ring\<close>

lemma and_1023: "(x::int) AND 1023 = x mod 1024"
proof -
  have m: "(1023::int) = mask 10" by (simp add: mask_eq_exp_minus_1)
  have "x AND mask 10 = take_bit 10 x" by (simp add: take_bit_eq_mask)
  also have "\<dots> = x mod 1024" by (simp add: take_bit_eq_mod)
  finally show ?thesis unfolding m .
qed

lemma OUTBUF_BYTES_mod: "OUTBUF_BYTES s = (outBufEnd s - outBufStart s) mod 1024"
  by (simp add: OUTBUF_BYTES_def OUTBUF_MASK_def OUTBUF_SIZE_def and_1023)

lemma OUTBUF_BYTES_range: "0 \<le> OUTBUF_BYTES s \<and> OUTBUF_BYTES s \<le> 1023"
  by (simp add: OUTBUF_BYTES_mod)

lemma queueByte_ring:
  assumes ok: "ring_ok s" and room: "OUTBUF_BYTES s < 1023"
  shows "ring_ok (queueByte b s)"
    and "OUTBUF_BYTES (queueByte b s) = OUTBUF_BYTES s + 1"
    and "outBufStart (queueByte b s) = outBufStart s"
    and "queued (queueByte b s) = queued s @ [b]"
proof -
  let ?st = "outBufStart s" and ?en = "outBufEnd s"
  from ok have len: "length (outBuf s) = 1024" and st: "0 \<le> ?st" "?st < 1024"
    and en: "0 \<le> ?en" "?en < 1024"
    by (simp_all add: ring_ok_def OUTBUF_SIZE_def)
  have en': "outBufEnd (queueByte b s) = (?en + 1) mod 1024"
    by (simp add: queueByte_def OUTBUF_MASK_def OUTBUF_SIZE_def and_1023)
  show ok': "ring_ok (queueByte b s)"
    using ok by (simp add: ring_ok_def queueByte_def OUTBUF_MASK_def OUTBUF_SIZE_def and_1023)
  show st': "outBufStart (queueByte b s) = outBufStart s"
    by (simp add: queueByte_def)
  have cnt: "OUTBUF_BYTES s = (?en - ?st) mod 1024" by (rule OUTBUF_BYTES_mod)
  have "((?en + 1) mod 1024 - ?st) mod 1024 = (?en + 1 - ?st) mod 1024"
    by (rule mod_diff_left_eq)
  also have "?en + 1 - ?st = (?en - ?st) + 1" by simp
  also have "((?en - ?st) + 1) mod 1024 = ((?en - ?st) mod 1024 + 1) mod 1024"
    by (rule mod_add_left_eq [symmetric])
  also have "\<dots> = (?en - ?st) mod 1024 + 1"
    using room cnt by (intro mod_pos_pos_trivial) simp_all
  finally show cnt': "OUTBUF_BYTES (queueByte b s) = OUTBUF_BYTES s + 1"
    by (simp add: OUTBUF_BYTES_mod en' st' cnt)
  have c0: "0 \<le> OUTBUF_BYTES s" using OUTBUF_BYTES_range by blast
  have endpos: "(?st + OUTBUF_BYTES s) mod 1024 = ?en"
    using st en by (simp add: cnt mod_add_right_eq)
  have old: "outBuf (queueByte b s) ! nat ((?st + int k) mod 1024) = outBuf s ! nat ((?st + int k) mod 1024)"
    if "k < nat (OUTBUF_BYTES s)" for k
  proof -
    have "(?st + int k) mod 1024 \<noteq> ?en"
    proof
      assume e: "(?st + int k) mod 1024 = ?en"
      have "((?st + int k) mod 1024 - ?st) mod 1024 = (?st + int k - ?st) mod 1024"
        by (rule mod_diff_left_eq)
      then have "(?en - ?st) mod 1024 = int k mod 1024"
        by (simp add: e)
      moreover have "int k mod 1024 = int k" using that room by simp
      ultimately show False using that cnt by simp
    qed
    then show ?thesis using en by (simp add: queueByte_def nat_eq_iff)
  qed
  have new: "outBuf (queueByte b s) ! nat ((?st + OUTBUF_BYTES s) mod 1024) = b"
    using en len by (simp add: endpos queueByte_def)
  have "nat (OUTBUF_BYTES s + 1) = Suc (nat (OUTBUF_BYTES s))" using c0 by simp
  then show "queued (queueByte b s) = queued s @ [b]"
    using old new c0 by (simp add: queued_def cnt' st' OUTBUF_SIZE_def)
qed

lemma queueByte_fields [simp]:
  "tasks (queueByte b s) = tasks s"
  "taskCount (queueByte b s) = taskCount s"
  "chunks (queueByte b s) = chunks s"
  "vars (queueByte b s) = vars s"
  "persistentLog (queueByte b s) = persistentLog s"
  "rcvBuf (queueByte b s) = rcvBuf s"
  "rcvByteCount (queueByte b s) = rcvByteCount s"
  "lastRcvTime (queueByte b s) = lastRcvTime s"
  by (simp_all add: queueByte_def)

text \<open>Queueing a list of bytes one after the other.\<close>

lemma queueBytes_ring:
  "ring_ok s \<Longrightarrow> OUTBUF_BYTES s + int (length bs) \<le> 1023 \<Longrightarrow>
     ring_ok (fold queueByte bs s) \<and>
     OUTBUF_BYTES (fold queueByte bs s) = OUTBUF_BYTES s + int (length bs) \<and>
     outBufStart (fold queueByte bs s) = outBufStart s \<and>
     queued (fold queueByte bs s) = queued s @ bs"
proof (induction bs arbitrary: s)
  case Nil
  then show ?case by simp
next
  case (Cons b bs)
  from Cons.prems have room: "OUTBUF_BYTES s < 1023" by simp
  note q = queueByte_ring [OF Cons.prems(1) room, of b]
  have "OUTBUF_BYTES (queueByte b s) + int (length bs) \<le> 1023"
    using Cons.prems(2) q(2) by simp
  from Cons.IH [OF q(1) this] show ?case
    using q by simp
qed

lemma queueBytes_fields [simp]:
  "tasks (fold queueByte bs s) = tasks s"
  "taskCount (fold queueByte bs s) = taskCount s"
  "chunks (fold queueByte bs s) = chunks s"
  "vars (fold queueByte bs s) = vars s"
  "persistentLog (fold queueByte bs s) = persistentLog s"
  "rcvBuf (fold queueByte bs s) = rcvBuf s"
  "rcvByteCount (fold queueByte bs s) = rcvByteCount s"
  "lastRcvTime (fold queueByte bs s) = lastRcvTime s"
  by (induction bs arbitrary: s) simp_all

lemma fold_queueByte_nth:
  "fold (\<lambda>i. queueByte (d ! i)) is s = fold queueByte (map (\<lambda>i. d ! i) is) s"
  by (induction "is" arbitrary: s) simp_all

lemma map_nth_take: "n \<le> length d \<Longrightarrow> map (\<lambda>i. d ! i) [0..<n] = take n d"
  by (simp add: list_eq_iff_nth_eq)

text \<open>\<open>sendMessage\<close> queues the bytes of the message, one by one, or nothing.\<close>

lemma sendMessage_fold:
  assumes "\<And>d. data = Some d \<Longrightarrow> 0 \<le> dataSize \<and> dataSize \<le> int (length d)"
  shows "sendMessage msgType chunkIndex dataSize data s =
     (if hasOutputSpace (messageLength dataSize data) s
      then fold queueByte (messageBytes msgType chunkIndex dataSize data) s else s)"
proof (cases data)
  case None
  then show ?thesis by (simp add: sendMessage_def messageLength_def messageBytes_def)
next
  case (Some d)
  from assms [OF Some] have "nat dataSize \<le> length d" by linarith
  then show ?thesis using Some
    by (simp add: sendMessage_def messageLength_def messageBytes_def Let_def
        fold_queueByte_nth map_nth_take)
qed

lemma messageBytes_length:
  "(\<And>d. data = Some d \<Longrightarrow> 0 \<le> dataSize \<and> dataSize \<le> int (length d)) \<Longrightarrow>
   int (length (messageBytes msgType chunkIndex dataSize data)) = messageLength dataSize data"
  by (cases data) (auto simp add: messageBytes_def messageLength_def)

lemma sendMessage_fields [simp]:
  "tasks (sendMessage msgType chunkIndex dataSize data s) = tasks s"
  "taskCount (sendMessage msgType chunkIndex dataSize data s) = taskCount s"
  "chunks (sendMessage msgType chunkIndex dataSize data s) = chunks s"
  "vars (sendMessage msgType chunkIndex dataSize data s) = vars s"
  "persistentLog (sendMessage msgType chunkIndex dataSize data s) = persistentLog s"
  "rcvBuf (sendMessage msgType chunkIndex dataSize data s) = rcvBuf s"
  "rcvByteCount (sendMessage msgType chunkIndex dataSize data s) = rcvByteCount s"
  "lastRcvTime (sendMessage msgType chunkIndex dataSize data s) = lastRcvTime s"
  by (simp_all add: sendMessage_def fold_queueByte_nth Let_def split: option.splits)

lemma sendMessage_dropped:
  "\<not> hasOutputSpace (messageLength dataSize data) s \<Longrightarrow>
   sendMessage msgType chunkIndex dataSize data s = s"
  by (simp add: sendMessage_def messageLength_def Let_def split: option.splits)

lemma sendMessage_queued:
  assumes ok: "ring_ok s"
    and wf: "\<And>d. data = Some d \<Longrightarrow> 0 \<le> dataSize \<and> dataSize \<le> int (length d)"
    and space: "hasOutputSpace (messageLength dataSize data) s"
  shows "ring_ok (sendMessage msgType chunkIndex dataSize data s)"
    and "OUTBUF_BYTES (sendMessage msgType chunkIndex dataSize data s) =
           OUTBUF_BYTES s + messageLength dataSize data"
    and "outBufStart (sendMessage msgType chunkIndex dataSize data s) = outBufStart s"
    and "queued (sendMessage msgType chunkIndex dataSize data s) =
           queued s @ messageBytes msgType chunkIndex dataSize data"
proof -
  let ?bs = "messageBytes msgType chunkIndex dataSize data"
  have len: "int (length ?bs) = messageLength dataSize data"
    using wf by (rule messageBytes_length)
  have "OUTBUF_BYTES s + int (length ?bs) \<le> 1023"
    using space by (simp add: len hasOutputSpace_def OUTBUF_MASK_def OUTBUF_SIZE_def)
  from queueBytes_ring [OF ok this] sendMessage_fold [OF wf] space len
  show "ring_ok (sendMessage msgType chunkIndex dataSize data s)"
    and "OUTBUF_BYTES (sendMessage msgType chunkIndex dataSize data s) =
           OUTBUF_BYTES s + messageLength dataSize data"
    and "outBufStart (sendMessage msgType chunkIndex dataSize data s) = outBufStart s"
    and "queued (sendMessage msgType chunkIndex dataSize data s) =
           queued s @ messageBytes msgType chunkIndex dataSize data"
    by simp_all
qed

lemma sendMessage_ring_ok:
  assumes ok: "ring_ok s"
    and wf: "\<And>d. data = Some d \<Longrightarrow> 0 \<le> dataSize \<and> dataSize \<le> int (length d)"
  shows "ring_ok (sendMessage msgType chunkIndex dataSize data s)"
  by (cases "hasOutputSpace (messageLength dataSize data) s")
     (simp_all add: sendMessage_queued(1) [OF ok wf] sendMessage_dropped ok)

text \<open>
  C2. A message that \<open>sendMessage\<close> receives when the free space of the ring
  (\<open>OUTBUF_MASK - OUTBUF_BYTES\<close>) does not exceed the message's total length leaves
  the whole state unchanged, so nothing of it is queued. Otherwise all its bytes are
  appended to the queued bytes, in order, the bytes queued before are kept, and the
  count of queued bytes grows by the message's length; it stays below the mask, so the
  ring does not overflow.
\<close>

theorem sendMessage_atomic:
  assumes "ring_ok s"
    and "\<forall>d. data = Some d \<longrightarrow> 0 \<le> dataSize \<and> dataSize \<le> int (length d)"
  shows "(\<not> OUTBUF_MASK - OUTBUF_BYTES s > messageLength dataSize data \<longrightarrow>
            sendMessage msgType chunkIndex dataSize data s = s) \<and>
         (OUTBUF_MASK - OUTBUF_BYTES s > messageLength dataSize data \<longrightarrow>
            queued (sendMessage msgType chunkIndex dataSize data s) =
              queued s @ messageBytes msgType chunkIndex dataSize data \<and>
            outBufStart (sendMessage msgType chunkIndex dataSize data s) = outBufStart s \<and>
            OUTBUF_BYTES (sendMessage msgType chunkIndex dataSize data s) =
              OUTBUF_BYTES s + messageLength dataSize data \<and>
            OUTBUF_BYTES (sendMessage msgType chunkIndex dataSize data s) < OUTBUF_MASK) \<and>
         ring_ok (sendMessage msgType chunkIndex dataSize data s)"
proof -
  from assms(2) have wf: "\<And>d. data = Some d \<Longrightarrow> 0 \<le> dataSize \<and> dataSize \<le> int (length d)"
    by blast
  show ?thesis
  proof (cases "hasOutputSpace (messageLength dataSize data) s")
    case True
    note q = sendMessage_queued [OF assms(1) wf True, of msgType chunkIndex]
    from True have "OUTBUF_BYTES s + messageLength dataSize data < OUTBUF_MASK"
      by (simp add: hasOutputSpace_def)
    with q True show ?thesis by (simp add: hasOutputSpace_def)
  next
    case False
    then show ?thesis
      using assms(1) by (simp add: sendMessage_dropped hasOutputSpace_def)
  qed
qed

theorem sendMessage_atomic_witness:
  "queued (sendMessage 17 3 0 None emptyRing) = [250, 17, 3] \<and>
   sendMessage 20 255 2 (Some [2, 65]) (emptyRing\<lparr>outBufEnd := 1020\<rparr>) = emptyRing\<lparr>outBufEnd := 1020\<rparr>"
proof -
  have ok: "ring_ok emptyRing" "ring_ok (emptyRing\<lparr>outBufEnd := 1020\<rparr>)"
    by (simp_all add: ring_ok_def emptyRing_def OUTBUF_SIZE_def)
  have c: "OUTBUF_BYTES emptyRing = 0" "OUTBUF_BYTES (emptyRing\<lparr>outBufEnd := 1020\<rparr>) = 1020"
    by (simp_all add: OUTBUF_BYTES_mod emptyRing_def)
  have q: "queued emptyRing = []" by (simp add: queued_def c)
  show ?thesis
    using sendMessage_atomic [OF ok(1), of None 0 17 3]
      sendMessage_atomic [OF ok(2), of "Some [2, 65]" 2 20 255]
    by (simp add: c q messageLength_def messageBytes_def OUTBUF_MASK_def OUTBUF_SIZE_def)
qed

text \<open>
  C9. The read routine of the browser simulation does not respect its bound: called with
  \<open>count = 0\<close> while one byte is waiting, \<open>recvBytes\<close> stores the byte at index
  0 and returns 1. Its loop runs while \<open>total <= count\<close>, so whenever more than
  \<open>count\<close> bytes are waiting it writes index \<open>count\<close> and returns
  \<open>count + 1\<close>.
\<close>

theorem recvBytes_exceeds_count:
  "recvBytes [7] (\<lambda>i. 0) 0 = (1, (\<lambda>i. 0)(0 := 7), [])"
  by (simp add: recvBytes_def)

lemma recvBytes_loop_overrun:
  "0 \<le> totalRead \<Longrightarrow> totalRead \<le> count + 1 \<Longrightarrow> int (length q) > count - totalRead \<Longrightarrow>
   fst (recvBytes_loop q buf count totalRead) = count + 1"
  by (induction q buf count totalRead rule: recvBytes_loop.induct) auto

section \<open>Properties of the task table\<close>

lemma firstIndex_le: "firstIndex P xs \<le> length xs"
  by (induction xs) simp_all

lemma firstIndex_found:
  "firstIndex P xs < length xs \<Longrightarrow> P (xs ! firstIndex P xs)"
  by (induction xs) (simp_all split: if_splits)

lemma firstIndex_before:
  "j < firstIndex P xs \<Longrightarrow> \<not> P (xs ! j)"
  by (induction xs arbitrary: j) (auto split: if_splits simp: nth_Cons')

lemma firstIndex_none:
  "firstIndex P xs \<ge> length xs \<longleftrightarrow> (\<forall>i < length xs. \<not> P (xs ! i))"
proof
  assume "firstIndex P xs \<ge> length xs"
  then show "\<forall>i < length xs. \<not> P (xs ! i)"
    using firstIndex_before [of _ P xs] by auto
next
  assume "\<forall>i < length xs. \<not> P (xs ! i)"
  then show "firstIndex P xs \<ge> length xs"
    using firstIndex_found [of P xs] by (meson not_le)
qed

lemma outputString_fields [simp]:
  "tasks (outputString K str s) = tasks s"
  "taskCount (outputString K str s) = taskCount s"
  "chunks (outputString K str s) = chunks s"
  "vars (outputString K str s) = vars s"
  "persistentLog (outputString K str s) = persistentLog s"
  "rcvBuf (outputString K str s) = rcvBuf s"
  "rcvByteCount (outputString K str s) = rcvByteCount s"
  by (simp_all add: outputString_def Let_def)

lemma list_ex_take_iff:
  "list_ex P (take n xs) \<longleftrightarrow> (\<exists>i. i < n \<and> i < length xs \<and> P (xs ! i))"
proof
  assume "list_ex P (take n xs)"
  then obtain i where "i < length (take n xs)" "P (take n xs ! i)"
    by (auto simp add: list_ex_iff in_set_conv_nth)
  then show "\<exists>i. i < n \<and> i < length xs \<and> P (xs ! i)"
    by (intro exI [of _ i]) simp
next
  assume "\<exists>i. i < n \<and> i < length xs \<and> P (xs ! i)"
  then obtain i where i: "i < n" "i < length xs" "P (xs ! i)" by blast
  then have "take n xs ! i \<in> set (take n xs)" by (intro nth_mem) simp
  with i show "list_ex P (take n xs)" by (auto simp add: list_ex_iff)
qed

lemma tasks_inv_sendMessage [simp]:
  "tasks_inv K (sendMessage msgType chunkIndex dataSize data s) = tasks_inv K s"
  by (simp add: tasks_inv_def MAX_TASKS_def)

lemma tasks_inv_outputString [simp]:
  "tasks_inv K (outputString K' str s) = tasks_inv K s"
  by (simp add: tasks_inv_def MAX_TASKS_def)

lemma tasks_inv_initTasks:
  "unusedTask K = 0 \<Longrightarrow> tasks_inv K (initTasks s)"
  by (simp add: tasks_inv_def initTasks_def MAX_TASKS_def zeroTask_def)

lemma tasks_invI:
  assumes "0 \<le> tc" "tc \<le> int (length ts)"
    and "\<And>j. j < length ts \<Longrightarrow> tc \<le> int j \<Longrightarrow> status (ts ! j) = unusedTask K"
    and "\<And>j k. j < length ts \<Longrightarrow> k < length ts \<Longrightarrow>
        status (ts ! j) \<noteq> unusedTask K \<Longrightarrow> status (ts ! k) \<noteq> unusedTask K \<Longrightarrow>
        taskChunkIndex (ts ! j) = taskChunkIndex (ts ! k) \<Longrightarrow> j = k"
    and "tasks s = ts" "taskCount s = tc"
  shows "tasks_inv K s"
  using assms unfolding tasks_inv_def MAX_TASKS_def by blast

text \<open>What \<open>startTaskForChunk\<close> does to the task table, case by case.\<close>

lemma startTaskForChunk_cases:
  assumes "startTaskForChunk K c s = Some s'"
  obtains
    (running) i where "i < MAX_TASKS s" "int i < taskCount s" "taskChunkIndex (tasks s ! i) = c"
      "status (tasks s ! i) \<noteq> 0" "s' = s"
  | (full) "\<forall>i < MAX_TASKS s. status (tasks s ! i) \<noteq> unusedTask K"
      "s' = outputString K (cstring ''No free task entries'') s"
      "\<forall>j. int j < taskCount s \<and> j < MAX_TASKS s \<longrightarrow>
          \<not> (taskChunkIndex (tasks s ! j) = c \<and> status (tasks s ! j) \<noteq> 0)"
  | (started) i where "i < MAX_TASKS s" "status (tasks s ! i) = unusedTask K"
      "\<forall>j < i. status (tasks s ! j) \<noteq> unusedTask K"
      "unat c < MAX_CHUNKS s"
      "\<forall>j. int j < taskCount s \<and> j < MAX_TASKS s \<longrightarrow>
          \<not> (taskChunkIndex (tasks s ! j) = c \<and> status (tasks s ! j) \<noteq> 0)"
      "s' = sendMessage (taskStartedMsg K) (uint c) 0 None
         (s\<lparr>tasks := (tasks s)[i :=
              \<lparr>status = running K, taskChunkIndex = c, currentChunkIndex = c,
               taskCode = code (chunks s ! unat c),
               ip = PERSISTENT_HEADER_WORDS K, sp = 0, fp = 0\<rparr>],
            taskCount := (if int i \<ge> taskCount s then int i + 1 else taskCount s)\<rparr>)"
proof (cases "list_ex (\<lambda>t. c = taskChunkIndex t \<and> status t \<noteq> 0) (take (nat (taskCount s)) (tasks s))")
  case True
  then obtain i where "i < nat (taskCount s)" "i < length (tasks s)"
    "c = taskChunkIndex (tasks s ! i)" "status (tasks s ! i) \<noteq> 0"
    by (auto simp add: list_ex_take_iff)
  moreover from True assms have "s' = s" by (simp add: startTaskForChunk_def)
  ultimately show ?thesis by (intro running [of i]) (simp_all add: MAX_TASKS_def)
next
  case notrunning: False
  let ?i = "firstIndex (\<lambda>t. unusedTask K = status t) (tasks s)"
  show ?thesis
  proof (cases "?i \<ge> MAX_TASKS s")
    case True
    then have "\<forall>i < MAX_TASKS s. status (tasks s ! i) \<noteq> unusedTask K"
      unfolding MAX_TASKS_def firstIndex_none by metis
    moreover from True notrunning assms
    have "s' = outputString K (cstring ''No free task entries'') s"
      by (simp add: startTaskForChunk_def Let_def)
    moreover have "\<forall>j. int j < taskCount s \<and> j < MAX_TASKS s \<longrightarrow>
          \<not> (taskChunkIndex (tasks s ! j) = c \<and> status (tasks s ! j) \<noteq> 0)"
      using notrunning by (auto simp add: list_ex_take_iff MAX_TASKS_def)
    ultimately show ?thesis by (rule full)
  next
    case False
    then have lt: "?i < MAX_TASKS s" by simp
    from False notrunning assms have inrange: "unat c < MAX_CHUNKS s"
      by (simp add: startTaskForChunk_def Let_def split: if_splits)
    show ?thesis
    proof (rule started [of ?i])
      show "?i < MAX_TASKS s" by (rule lt)
      show "status (tasks s ! ?i) = unusedTask K"
        using firstIndex_found [of "\<lambda>t. unusedTask K = status t" "tasks s"] lt
        by (simp add: MAX_TASKS_def)
      show "\<forall>j < ?i. status (tasks s ! j) \<noteq> unusedTask K"
        using firstIndex_before [of _ "\<lambda>t. unusedTask K = status t" "tasks s"] by metis
      show "unat c < MAX_CHUNKS s" by (rule inrange)
      show "\<forall>j. int j < taskCount s \<and> j < MAX_TASKS s \<longrightarrow>
          \<not> (taskChunkIndex (tasks s ! j) = c \<and> status (tasks s ! j) \<noteq> 0)"
        using notrunning by (auto simp add: list_ex_take_iff MAX_TASKS_def)
      show "s' = sendMessage (taskStartedMsg K) (uint c) 0 None
         (s\<lparr>tasks := (tasks s)[?i :=
              \<lparr>status = running K, taskChunkIndex = c, currentChunkIndex = c,
               taskCode = code (chunks s ! unat c),
               ip = PERSISTENT_HEADER_WORDS K, sp = 0, fp = 0\<rparr>],
            taskCount := (if int ?i \<ge> taskCount s then int ?i + 1 else taskCount s)\<rparr>)"
        using False notrunning inrange assms
        by (simp add: startTaskForChunk_def Let_def)
    qed
  qed
qed

lemma startTaskForChunk_inv:
  assumes z: "unusedTask K = 0" and inv: "tasks_inv K s"
    and st: "startTaskForChunk K c s = Some s'"
  shows "tasks_inv K s'"
  using st
proof (cases rule: startTaskForChunk_cases)
  case (running i)
  then show ?thesis using inv by simp
next
  case full
  then show ?thesis using inv by simp
next
  case (started i)
  let ?t = "\<lparr>status = running K, taskChunkIndex = c, currentChunkIndex = c,
               taskCode = code (chunks s ! unat c),
               ip = PERSISTENT_HEADER_WORDS K, sp = 0, fp = 0\<rparr>"
  from inv have tc: "0 \<le> taskCount s" "taskCount s \<le> int (MAX_TASKS s)"
    and beyond: "\<And>j. j < MAX_TASKS s \<Longrightarrow> taskCount s \<le> int j \<Longrightarrow> status (tasks s ! j) = unusedTask K"
    and uniq: "\<And>j k. j < MAX_TASKS s \<Longrightarrow> k < MAX_TASKS s \<Longrightarrow>
        status (tasks s ! j) \<noteq> unusedTask K \<Longrightarrow> status (tasks s ! k) \<noteq> unusedTask K \<Longrightarrow>
        taskChunkIndex (tasks s ! j) = taskChunkIndex (tasks s ! k) \<Longrightarrow> j = k"
    by (auto simp add: tasks_inv_def)
  have none: "\<not> (taskChunkIndex (tasks s ! j) = c \<and> status (tasks s ! j) \<noteq> unusedTask K)"
    if "j < MAX_TASKS s" for j
  proof (cases "int j < taskCount s")
    case True
    with started(5) that z show ?thesis by auto
  next
    case False
    with beyond [OF that] show ?thesis by simp
  qed
  have len: "i < length (tasks s)" using started(1) by (simp add: MAX_TASKS_def)
  let ?ts = "(tasks s)[i := ?t]"
  let ?tc = "if int i \<ge> taskCount s then int i + 1 else taskCount s"
  have a: "0 \<le> ?tc" "?tc \<le> int (length ?ts)"
    using tc len by (simp_all add: MAX_TASKS_def)
  have b: "status (?ts ! j) = unusedTask K" if "j < length ?ts" "?tc \<le> int j" for j
    using that beyond [of j] by (auto simp add: MAX_TASKS_def nth_list_update split: if_splits)
  have c: "j = k"
    if jk: "j < length ?ts" "k < length ?ts"
      and h: "status (?ts ! j) \<noteq> unusedTask K" "status (?ts ! k) \<noteq> unusedTask K"
        "taskChunkIndex (?ts ! j) = taskChunkIndex (?ts ! k)" for j k
  proof (cases "j = i"; cases "k = i")
    assume "j = i" "k \<noteq> i"
    with h jk len none [of k] show ?thesis by (simp add: MAX_TASKS_def)
  next
    assume "j \<noteq> i" "k = i"
    with h jk len none [of j] show ?thesis by (simp add: MAX_TASKS_def)
  next
    assume "j \<noteq> i" "k \<noteq> i"
    with h jk uniq [of j k] show ?thesis by (simp add: MAX_TASKS_def)
  qed simp
  have "tasks_inv K (s\<lparr>tasks := ?ts, taskCount := ?tc\<rparr>)"
  proof (rule tasks_invI [where ts = ?ts and tc = ?tc])
    show "0 \<le> ?tc" "?tc \<le> int (length ?ts)" by (rule a)+
    show "\<And>j. j < length ?ts \<Longrightarrow> ?tc \<le> int j \<Longrightarrow> status (?ts ! j) = unusedTask K"
      by (rule b)
    show "\<And>j k. j < length ?ts \<Longrightarrow> k < length ?ts \<Longrightarrow>
        status (?ts ! j) \<noteq> unusedTask K \<Longrightarrow> status (?ts ! k) \<noteq> unusedTask K \<Longrightarrow>
        taskChunkIndex (?ts ! j) = taskChunkIndex (?ts ! k) \<Longrightarrow> j = k"
      by (rule c)
  qed simp_all
  then show ?thesis
    unfolding started(6) tasks_inv_sendMessage .
qed

lemma stopTaskForChunk_inv:
  assumes z: "unusedTask K = 0" and inv: "tasks_inv K s"
  shows "tasks_inv K (stopTaskForChunk K c s)"
proof -
  let ?i = "firstIndex (\<lambda>t. c = taskChunkIndex t) (tasks s)"
  show ?thesis
  proof (cases "?i \<ge> MAX_TASKS s")
    case True
    then show ?thesis using inv by (simp add: stopTaskForChunk_def Let_def)
  next
    case False
    then have len: "?i < length (tasks s)" by (simp add: MAX_TASKS_def)
    have zs: "status zeroTask = unusedTask K" using z by (simp add: zeroTask_def)
    have "tasks_inv K (s\<lparr>tasks := (tasks s)[?i := zeroTask],
        taskCount := (if int ?i = taskCount s - 1 then taskCount s - 1 else taskCount s)\<rparr>)"
      using inv len zs unfolding tasks_inv_def MAX_TASKS_def
      by (auto simp add: nth_list_update split: if_splits)
    then show ?thesis using False by (simp add: stopTaskForChunk_def Let_def)
  qed
qed

lemma stopAllTasks_loop_tasks:
  "tasks (fold (\<lambda>t s'. if status t \<noteq> 0
                      then sendMessage msgType (uint (taskChunkIndex t)) 0 None s'
                      else s') ts s) = tasks s"
  by (induction ts arbitrary: s) simp_all

lemma stopAllTasks_tasks:
  "tasks (stopAllTasks K s) = replicate (MAX_TASKS s) zeroTask \<and> taskCount (stopAllTasks K s) = 0"
  by (simp add: stopAllTasks_def initTasks_def MAX_TASKS_def stopAllTasks_loop_tasks)

lemma stopAllTasks_inv: "unusedTask K = 0 \<Longrightarrow> tasks_inv K (stopAllTasks K s)"
  using stopAllTasks_tasks [of K s]
  by (simp add: tasks_inv_def MAX_TASKS_def zeroTask_def)

lemma startAll_loop_inv:
  "unusedTask K = 0 \<Longrightarrow> tasks_inv K s \<Longrightarrow> startAll_loop K is s = Some s' \<Longrightarrow> tasks_inv K s'"
proof (induction "is" arbitrary: s)
  case Nil
  then show ?case by simp
next
  case (Cons i rest)
  then show ?case
    by (auto simp add: Let_def split: if_splits option.splits dest: startTaskForChunk_inv)
qed

lemma startReceiversOfBroadcast_loop_inv:
  "unusedTask K = 0 \<Longrightarrow> tasks_inv K s \<Longrightarrow>
   startReceiversOfBroadcast_loop K msg byteCount is s = Some s' \<Longrightarrow> tasks_inv K s'"
proof (induction "is" arbitrary: s)
  case Nil
  then show ?case by simp
next
  case (Cons i rest)
  then show ?case
    by (auto simp add: Let_def split: if_splits option.splits bool.splits
        dest: startTaskForChunk_inv)
qed

lemma appendPersistentRecord_fields [simp]:
  "tasks (snd (appendPersistentRecord ty recID extra byteCount data s)) = tasks s"
  "taskCount (snd (appendPersistentRecord ty recID extra byteCount data s)) = taskCount s"
  "chunks (snd (appendPersistentRecord ty recID extra byteCount data s)) = chunks s"
  "vars (snd (appendPersistentRecord ty recID extra byteCount data s)) = vars s"
  "outBuf (snd (appendPersistentRecord ty recID extra byteCount data s)) = outBuf s"
  "outBufStart (snd (appendPersistentRecord ty recID extra byteCount data s)) = outBufStart s"
  "outBufEnd (snd (appendPersistentRecord ty recID extra byteCount data s)) = outBufEnd s"
  "rcvBuf (snd (appendPersistentRecord ty recID extra byteCount data s)) = rcvBuf s"
  "rcvByteCount (snd (appendPersistentRecord ty recID extra byteCount data s)) = rcvByteCount s"
  by (simp_all add: appendPersistentRecord_def)

lemma deleteCodeChunk_inv:
  "unusedTask K = 0 \<Longrightarrow> tasks_inv K s \<Longrightarrow> tasks_inv K (deleteCodeChunk K c s)"
  using stopTaskForChunk_inv [of K s c]
  by (simp add: deleteCodeChunk_def Let_def tasks_inv_def MAX_TASKS_def)

lemma fold_append_tasks:
  "tasks (fold (\<lambda>chunkIndex s'. snd (appendPersistentRecord ty (int chunkIndex) 0 0 [] s')) is s) = tasks s \<and>
   taskCount (fold (\<lambda>chunkIndex s'. snd (appendPersistentRecord ty (int chunkIndex) 0 0 [] s')) is s) = taskCount s"
  by (induction "is" arbitrary: s) simp_all

lemma deleteAllChunks_inv:
  "unusedTask K = 0 \<Longrightarrow> tasks_inv K (deleteAllChunks K s)"
  using stopAllTasks_inv [of K s]
  by (simp add: deleteAllChunks_def Let_def tasks_inv_def MAX_TASKS_def fold_append_tasks)

lemma dispatcherCall_inv:
  "unusedTask K = 0 \<Longrightarrow> tasks_inv K s \<Longrightarrow> dispatcherCall K c s = Some s' \<Longrightarrow> tasks_inv K s'"
proof (cases c)
  case (StartTaskForChunk i)
  assume "unusedTask K = 0" "tasks_inv K s" "dispatcherCall K c s = Some s'"
  then show ?thesis using StartTaskForChunk by (auto dest: startTaskForChunk_inv)
next
  case (StopTaskForChunk i)
  assume "unusedTask K = 0" "tasks_inv K s" "dispatcherCall K c s = Some s'"
  then show ?thesis using StopTaskForChunk by (auto simp add: stopTaskForChunk_inv)
next
  case StartAll
  assume "unusedTask K = 0" "tasks_inv K s" "dispatcherCall K c s = Some s'"
  then show ?thesis using StartAll startAll_loop_inv [OF _ stopAllTasks_inv]
    by (auto simp add: startAll_def)
next
  case StopAllTasks
  assume "unusedTask K = 0" "tasks_inv K s" "dispatcherCall K c s = Some s'"
  then show ?thesis using StopAllTasks by (auto simp add: stopAllTasks_inv)
next
  case (StartReceiversOfBroadcast msg n)
  assume "unusedTask K = 0" "tasks_inv K s" "dispatcherCall K c s = Some s'"
  then show ?thesis using StartReceiversOfBroadcast
    by (auto simp add: startReceiversOfBroadcast_def dest: startReceiversOfBroadcast_loop_inv)
next
  case (DeleteCodeChunk i)
  assume "unusedTask K = 0" "tasks_inv K s" "dispatcherCall K c s = Some s'"
  then show ?thesis using DeleteCodeChunk by (auto simp add: deleteCodeChunk_inv)
next
  case DeleteAllChunks
  assume "unusedTask K = 0" "tasks_inv K s" "dispatcherCall K c s = Some s'"
  then show ?thesis using DeleteAllChunks by (auto simp add: deleteAllChunks_inv)
qed

lemma dispatcherCalls_inv:
  "unusedTask K = 0 \<Longrightarrow> tasks_inv K s \<Longrightarrow> dispatcherCalls K cs s = Some s' \<Longrightarrow> tasks_inv K s'"
proof (induction cs arbitrary: s)
  case Nil
  then show ?case by simp
next
  case (Cons c cs)
  then show ?case by (auto split: option.splits dest: dispatcherCall_inv)
qed

lemma filter_at_most_one:
  "(\<And>i j. i < length xs \<Longrightarrow> j < length xs \<Longrightarrow> P (xs ! i) \<Longrightarrow> P (xs ! j) \<Longrightarrow> i = j) \<Longrightarrow>
   length (filter P xs) \<le> 1"
proof (induction xs)
  case Nil
  then show ?case by simp
next
  case (Cons x xs)
  have IH: "length (filter P xs) \<le> 1"
  proof (rule Cons.IH)
    fix i j assume "i < length xs" "j < length xs" "P (xs ! i)" "P (xs ! j)"
    then show "i = j" using Cons.prems [of "Suc i" "Suc j"] by simp
  qed
  show ?case
  proof (cases "P x")
    case True
    have "\<not> P y" if "y \<in> set xs" for y
    proof
      assume "P y"
      from that obtain k where "k < length xs" "xs ! k = y" by (auto simp add: in_set_conv_nth)
      with \<open>P y\<close> True Cons.prems [of 0 "Suc k"] show False by simp
    qed
    then have "filter P xs = []" by (simp add: filter_empty_conv)
    with True show ?thesis by simp
  next
    case False
    with IH show ?thesis by simp
  qed
qed

lemma tasks_inv_tasksForChunk: "tasks_inv K s \<Longrightarrow> tasksForChunk K c s \<le> 1"
  unfolding tasksForChunk_def
  by (rule filter_at_most_one) (auto simp add: tasks_inv_def MAX_TASKS_def)

lemma tasksForChunk_zero_iff:
  "tasksForChunk K c s = 0 \<longleftrightarrow>
     (\<forall>k < MAX_TASKS s. \<not> (status (tasks s ! k) \<noteq> unusedTask K \<and> taskChunkIndex (tasks s ! k) = c))"
  by (simp add: tasksForChunk_def MAX_TASKS_def filter_empty_conv all_set_conv_all_nth)

lemma tasksForChunk_sendMessage [simp]:
  "tasksForChunk K c (sendMessage msgType chunkIndex dataSize data s) = tasksForChunk K c s"
  by (simp add: tasksForChunk_def)

text \<open>
  C1. Whatever sequence of calls of \<open>startTaskForChunk\<close>, \<open>stopTaskForChunk\<close>,
  \<open>startAll\<close>, \<open>stopAllTasks\<close>, \<open>startReceiversOfBroadcast\<close>,
  \<open>deleteCodeChunk\<close> and \<open>deleteAllChunks\<close> is run from the task table that
  \<open>initTasks\<close> leaves, every chunk index has at most one task entry whose status is
  not \<open>unusedTask\<close>. (\<open>unusedTask\<close> is the zero status, the one \<open>memset\<close> leaves.)
\<close>

theorem dispatcher_one_task_per_chunk:
  assumes "unusedTask K = 0"
    and "dispatcherCalls K calls (initTasks s0) = Some s"
  shows "\<forall>chunkIndex. tasksForChunk K chunkIndex s \<le> 1"
proof -
  have "tasks_inv K (initTasks s0)" using assms(1) by (rule tasks_inv_initTasks)
  from dispatcherCalls_inv [OF assms(1) this assms(2)] have "tasks_inv K s" .
  then show ?thesis using tasks_inv_tasksForChunk by blast
qed

lemmas example_defs =
  twoTasks_def emptyRing_def initTasks_def MAX_TASKS_def MAX_CHUNKS_def zeroTask_def
  zeroChunk_def exampleConsts_def oneTaskFull_def chunkZeroRunning_def

lemmas ring_defs =
  sendMessage_def hasOutputSpace_def OUTBUF_MASK_def OUTBUF_SIZE_def OUTBUF_BYTES_def
  queueByte_def

theorem dispatcher_one_task_per_chunk_witness:
  "unusedTask exampleConsts = 0 \<and>
   (\<exists>s. dispatcherCalls exampleConsts
          [StartTaskForChunk 1, StartTaskForChunk 1, StopTaskForChunk 0, StartTaskForChunk 2]
          (initTasks twoTasks) = Some s \<and>
        map taskChunkIndex (tasks s) = [1, 2] \<and> map status (tasks s) = [1, 1] \<and>
        (\<forall>chunkIndex. tasksForChunk exampleConsts chunkIndex s \<le> 1))"
proof -
  have z: "unusedTask exampleConsts = 0" by (simp add: exampleConsts_def)
  have "\<exists>s. dispatcherCalls exampleConsts
          [StartTaskForChunk 1, StartTaskForChunk 1, StopTaskForChunk 0, StartTaskForChunk 2]
          (initTasks twoTasks) = Some s \<and>
        map taskChunkIndex (tasks s) = [1, 2] \<and> map status (tasks s) = [1, 1]"
    by (simp add: startTaskForChunk_def stopTaskForChunk_def example_defs ring_defs Let_def)
  then obtain s where s: "dispatcherCalls exampleConsts
          [StartTaskForChunk 1, StartTaskForChunk 1, StopTaskForChunk 0, StartTaskForChunk 2]
          (initTasks twoTasks) = Some s"
       "map taskChunkIndex (tasks s) = [1, 2]" "map status (tasks s) = [1, 1]"
    by auto
  from dispatcher_one_task_per_chunk [OF z s(1)] s z show ?thesis by auto
qed

lemma outputString_plain:
  "strlen str = length str \<Longrightarrow> length str \<le> 199 \<Longrightarrow>
   outputString K str s =
     sendMessage (outputValueMsg K) 255 (int (length str) + 1) (Some (2 # str)) s"
  by (simp add: outputString_def Let_def map_nth)

lemma outputString_noFree:
  "outputString K (cstring ''No free task entries'') s =
     sendMessage (outputValueMsg K) 255 21 (Some (2 # cstring ''No free task entries'')) s"
  using outputString_plain [of "cstring ''No free task entries''" K s]
  by (simp add: strlen_def cstring_def)

lemma sendMessage_short:
  assumes "ring_ok s"
  shows "hasOutputSpace 3 s \<Longrightarrow>
           queued (sendMessage msgType chunkIndex 0 None s) =
             queued s @ [250, word_of_int msgType, word_of_int chunkIndex]"
    and "\<not> hasOutputSpace 3 s \<Longrightarrow> sendMessage msgType chunkIndex 0 None s = s"
proof -
  have "queued (sendMessage msgType chunkIndex 0 None s) =
          queued s @ messageBytes msgType chunkIndex 0 None"
    if "hasOutputSpace 3 s"
    by (rule sendMessage_queued(4)) (use assms that in \<open>simp_all add: messageLength_def\<close>)
  then show "hasOutputSpace 3 s \<Longrightarrow> queued (sendMessage msgType chunkIndex 0 None s) =
             queued s @ [250, word_of_int msgType, word_of_int chunkIndex]"
    by (simp add: messageBytes_def)
  show "sendMessage msgType chunkIndex 0 None s = s" if "\<not> hasOutputSpace 3 s"
    using that by (simp add: sendMessage_def)
qed

lemma sendMessage_noFree:
  assumes "ring_ok s"
  shows "hasOutputSpace 26 s \<Longrightarrow>
           queued (sendMessage msgType 255 21 (Some (2 # cstring ''No free task entries'')) s) =
             queued s @ messageBytes msgType 255 21 (Some (2 # cstring ''No free task entries''))"
    and "\<not> hasOutputSpace 26 s \<Longrightarrow>
           sendMessage msgType 255 21 (Some (2 # cstring ''No free task entries'')) s = s"
proof -
  let ?d = "Some (2 # cstring ''No free task entries'')"
  show "queued (sendMessage msgType 255 21 ?d s) = queued s @ messageBytes msgType 255 21 ?d"
    if "hasOutputSpace 26 s"
    by (rule sendMessage_queued(4))
       (use assms that in \<open>auto simp add: messageLength_def cstring_def\<close>)
  show "sendMessage msgType 255 21 ?d s = s" if "\<not> hasOutputSpace 26 s"
    using that by (simp add: sendMessage_def)
qed

lemma startTaskForChunk_Some:
  "unat c < MAX_CHUNKS s \<Longrightarrow> \<exists>s'. startTaskForChunk K c s = Some s'"
  by (simp add: startTaskForChunk_def Let_def)

text \<open>
  C10. \<open>startTaskForChunk\<close> does not look at the chunk. For a chunk index within the
  table whose entry is unused (type \<open>unusedChunk\<close>, null code) and that has no task:
  if some task entry is free, the call puts a task with status \<open>running\<close>, a null code
  pointer and \<open>ip = PERSISTENT_HEADER_WORDS\<close> into the first free entry and sends a
  \<open>taskStartedMsg\<close> for the chunk (queued when the ring has room for it, dropped
  otherwise); if no entry is free, the table stays as it is and the string
  "No free task entries" is sent as an \<open>outputValueMsg\<close> instead.
\<close>

theorem startTaskForChunk_unused_chunk:
  assumes "unusedTask K = 0"
    and "unat i < MAX_CHUNKS s"
    and "chunks s ! unat i = \<lparr>code = None, chunkType = unusedChunk K\<rparr>"
    and "tasksForChunk K i s = 0"
    and "ring_ok s"
  shows "((\<exists>k < MAX_TASKS s. status (tasks s ! k) = unusedTask K) \<longrightarrow>
            (\<exists>k s'. startTaskForChunk K i s = Some s' \<and> k < MAX_TASKS s \<and>
               status (tasks s ! k) = unusedTask K \<and>
               (\<forall>j < k. status (tasks s ! j) \<noteq> unusedTask K) \<and>
               tasks s' = (tasks s)[k :=
                  \<lparr>status = running K, taskChunkIndex = i, currentChunkIndex = i,
                   taskCode = None, ip = PERSISTENT_HEADER_WORDS K, sp = 0, fp = 0\<rparr>] \<and>
               (hasOutputSpace 3 s \<longrightarrow>
                  queued s' = queued s @ [250, word_of_int (taskStartedMsg K), i]) \<and>
               (\<not> hasOutputSpace 3 s \<longrightarrow> queued s' = queued s))) \<and>
         (\<not> (\<exists>k < MAX_TASKS s. status (tasks s ! k) = unusedTask K) \<longrightarrow>
            (\<exists>s'. startTaskForChunk K i s = Some s' \<and>
               tasks s' = tasks s \<and> taskCount s' = taskCount s \<and>
               (hasOutputSpace 26 s \<longrightarrow>
                  queued s' = queued s @
                    messageBytes (outputValueMsg K) 255 21
                      (Some (2 # cstring ''No free task entries''))) \<and>
               (\<not> hasOutputSpace 26 s \<longrightarrow> queued s' = queued s)))"
proof -
  from startTaskForChunk_Some [OF assms(2)]
  obtain s' where s': "startTaskForChunk K i s = Some s'" by blast
  from assms(4) have none:
    "\<And>k. k < MAX_TASKS s \<Longrightarrow>
        \<not> (status (tasks s ! k) \<noteq> unusedTask K \<and> taskChunkIndex (tasks s ! k) = i)"
    by (simp add: tasksForChunk_zero_iff)
  from s' show ?thesis
  proof (cases rule: startTaskForChunk_cases)
    case (running k)
    with none [of k] assms(1) show ?thesis by simp
  next
    case full
    have "tasks s' = tasks s" "taskCount s' = taskCount s"
      by (simp_all add: full(2))
    moreover have "hasOutputSpace 26 s \<Longrightarrow> queued s' = queued s @
        messageBytes (outputValueMsg K) 255 21 (Some (2 # cstring ''No free task entries''))"
      unfolding full(2) outputString_noFree by (rule sendMessage_noFree(1) [OF assms(5)])
    moreover have "\<not> hasOutputSpace 26 s \<Longrightarrow> queued s' = queued s"
      unfolding full(2) outputString_noFree by (simp add: sendMessage_noFree(2) [OF assms(5)])
    ultimately show ?thesis using full(1) s' by auto
  next
    case (started k)
    let ?s1 = "s\<lparr>tasks := (tasks s)[k :=
              \<lparr>status = running K, taskChunkIndex = i, currentChunkIndex = i,
               taskCode = code (chunks s ! unat i),
               ip = PERSISTENT_HEADER_WORDS K, sp = 0, fp = 0\<rparr>],
            taskCount := (if int k \<ge> taskCount s then int k + 1 else taskCount s)\<rparr>"
    have ok1: "ring_ok ?s1" using assms(5) by (simp add: ring_ok_def)
    have sp: "hasOutputSpace 3 ?s1 = hasOutputSpace 3 s"
      by (simp add: hasOutputSpace_def OUTBUF_BYTES_def)
    have q1: "queued ?s1 = queued s" by (simp add: queued_def OUTBUF_BYTES_def)
    have t: "tasks s' = (tasks s)[k :=
                  \<lparr>status = running K, taskChunkIndex = i, currentChunkIndex = i,
                   taskCode = None, ip = PERSISTENT_HEADER_WORDS K, sp = 0, fp = 0\<rparr>]"
      by (simp add: started(6) assms(3))
    have a: "hasOutputSpace 3 s \<Longrightarrow> queued s' = queued s @ [250, word_of_int (taskStartedMsg K), i]"
      unfolding started(6) using sendMessage_short(1) [OF ok1, of "taskStartedMsg K" "uint i"]
      by (simp add: sp q1)
    have b: "\<not> hasOutputSpace 3 s \<Longrightarrow> queued s' = queued s"
      unfolding started(6) using sendMessage_short(2) [OF ok1, of "taskStartedMsg K" "uint i"]
      by (simp add: sp q1)
    from started(1,2,3) t a b s' show ?thesis by blast
  qed
qed

lemma twoTasks_ring: "ring_ok twoTasks" "OUTBUF_BYTES twoTasks = 0" "queued twoTasks = []"
  by (simp_all add: ring_ok_def twoTasks_def emptyRing_def initTasks_def OUTBUF_SIZE_def
      OUTBUF_BYTES_mod queued_def)

theorem startTaskForChunk_unused_chunk_witness:
  "\<exists>s'. startTaskForChunk exampleConsts 2 twoTasks = Some s' \<and>
      tasks s' = [\<lparr>status = 1, taskChunkIndex = 2, currentChunkIndex = 2, taskCode = None,
                   ip = 2, sp = 0, fp = 0\<rparr>, zeroTask] \<and>
      queued s' = [250, 16, 2]"
proof -
  have h: "unusedTask exampleConsts = 0" "unat (2 :: uint8) < MAX_CHUNKS twoTasks"
    "chunks twoTasks ! unat (2 :: uint8) = \<lparr>code = None, chunkType = unusedChunk exampleConsts\<rparr>"
    "tasksForChunk exampleConsts 2 twoTasks = 0"
    by (simp_all add: example_defs tasksForChunk_def)
  have free: "\<exists>k < MAX_TASKS twoTasks. status (tasks twoTasks ! k) = unusedTask exampleConsts"
    by (rule exI [of _ 0]) (simp add: example_defs)
  have sp: "hasOutputSpace 3 twoTasks"
    by (simp add: hasOutputSpace_def twoTasks_ring OUTBUF_MASK_def OUTBUF_SIZE_def)
  from startTaskForChunk_unused_chunk [OF h twoTasks_ring(1)] free sp
  obtain k s' where s': "startTaskForChunk exampleConsts 2 twoTasks = Some s'"
    "status (tasks twoTasks ! k) = unusedTask exampleConsts"
    "\<forall>j < k. status (tasks twoTasks ! j) \<noteq> unusedTask exampleConsts"
    "tasks s' = (tasks twoTasks)[k :=
        \<lparr>status = running exampleConsts, taskChunkIndex = 2, currentChunkIndex = 2,
         taskCode = None, ip = PERSISTENT_HEADER_WORDS exampleConsts, sp = 0, fp = 0\<rparr>]"
    "queued s' = queued twoTasks @ [250, word_of_int (taskStartedMsg exampleConsts), 2]"
    by blast
  have "k = 0"
  proof (rule ccontr)
    assume "k \<noteq> 0"
    with s'(3) have "status (tasks twoTasks ! 0) \<noteq> unusedTask exampleConsts" by simp
    then show False by (simp add: example_defs)
  qed
  with s'(4) have "tasks s' = [\<lparr>status = 1, taskChunkIndex = 2, currentChunkIndex = 2,
      taskCode = None, ip = 2, sp = 0, fp = 0\<rparr>, zeroTask]"
    by (simp add: example_defs)
  moreover from s'(5) have "queued s' = [250, 16, 2]"
    by (simp add: twoTasks_ring exampleConsts_def)
  ultimately show ?thesis using s'(1) by blast
qed

lemma startTaskForChunk_running:
  assumes "int k < taskCount s" "k < MAX_TASKS s" "taskChunkIndex (tasks s ! k) = c"
    "status (tasks s ! k) \<noteq> 0"
  shows "startTaskForChunk K c s = Some s"
proof -
  have "list_ex (\<lambda>t. c = taskChunkIndex t \<and> status t \<noteq> 0) (take (nat (taskCount s)) (tasks s))"
    unfolding list_ex_take_iff using assms by (intro exI [of _ k]) (auto simp add: MAX_TASKS_def)
  then show ?thesis by (simp add: startTaskForChunk_def)
qed

lemma tasksForChunk_pos:
  "k < MAX_TASKS s \<Longrightarrow> status (tasks s ! k) \<noteq> unusedTask K \<Longrightarrow>
   taskChunkIndex (tasks s ! k) = c \<Longrightarrow> tasksForChunk K c s \<noteq> 0"
  unfolding tasksForChunk_zero_iff by blast

lemma tasksForChunk_one:
  "tasks_inv K s \<Longrightarrow> k < MAX_TASKS s \<Longrightarrow> status (tasks s ! k) \<noteq> unusedTask K \<Longrightarrow>
   taskChunkIndex (tasks s ! k) = c \<Longrightarrow> tasksForChunk K c s = 1"
  using tasksForChunk_pos [of k s K c] tasks_inv_tasksForChunk [of K s c] by simp

text \<open>
  Two calls of \<open>startTaskForChunk\<close> where the first one finds a task for the chunk or
  a free entry: the second call finds the task of the first and returns.
\<close>

lemma startTaskForChunk_twice_free:
  assumes "unusedTask K = 0" and "running K \<noteq> 0" and "tasks_inv K s" and "ring_ok s"
    and "tasksForChunk K i s = 1 \<or>
         (unat i < MAX_CHUNKS s \<and> (\<exists>k < MAX_TASKS s. status (tasks s ! k) = unusedTask K))"
  shows "\<exists>s1. startTaskForChunk K i s = Some s1 \<and> startTaskForChunk K i s1 = Some s1 \<and>
           tasksForChunk K i s1 = 1 \<and>
           (tasksForChunk K i s = 1 \<longrightarrow> s1 = s) \<and>
           (tasksForChunk K i s = 0 \<longrightarrow>
              (hasOutputSpace 3 s \<longrightarrow>
                 queued s1 = queued s @ [250, word_of_int (taskStartedMsg K), i]) \<and>
              (\<not> hasOutputSpace 3 s \<longrightarrow> queued s1 = queued s))"
proof (cases "tasksForChunk K i s = 0")
  case False
  then obtain k where k: "k < MAX_TASKS s" "status (tasks s ! k) \<noteq> unusedTask K"
    "taskChunkIndex (tasks s ! k) = i"
    unfolding tasksForChunk_zero_iff by blast
  from assms(3) k(1,2) have "int k < taskCount s"
    unfolding tasks_inv_def by (meson not_le)
  with k assms(1) have "startTaskForChunk K i s = Some s"
    by (intro startTaskForChunk_running [of k]) simp_all
  moreover have "tasksForChunk K i s = 1"
    using assms(3) k by (rule tasksForChunk_one)
  ultimately show ?thesis using False by simp
next
  case True
  with assms(5) have inrange: "unat i < MAX_CHUNKS s"
    and free: "\<exists>k < MAX_TASKS s. status (tasks s ! k) = unusedTask K"
    by simp_all
  from startTaskForChunk_Some [OF inrange]
  obtain s1 where s1: "startTaskForChunk K i s = Some s1" by blast
  from True have none:
    "\<And>k. k < MAX_TASKS s \<Longrightarrow>
        \<not> (status (tasks s ! k) \<noteq> unusedTask K \<and> taskChunkIndex (tasks s ! k) = i)"
    by (simp add: tasksForChunk_zero_iff)
  have inv1: "tasks_inv K s1" using assms(1,3) s1 by (rule startTaskForChunk_inv)
  from s1 show ?thesis
  proof (cases rule: startTaskForChunk_cases)
    case (running k)
    with none [of k] assms(1) show ?thesis by simp
  next
    case full
    with free show ?thesis by auto
  next
    case (started k)
    let ?s0 = "s\<lparr>tasks := (tasks s)[k :=
              \<lparr>status = running K, taskChunkIndex = i, currentChunkIndex = i,
               taskCode = code (chunks s ! unat i),
               ip = PERSISTENT_HEADER_WORDS K, sp = 0, fp = 0\<rparr>],
            taskCount := (if int k \<ge> taskCount s then int k + 1 else taskCount s)\<rparr>"
    have len: "k < length (tasks s)" using started(1) by (simp add: MAX_TASKS_def)
    have t1: "tasks s1 = tasks ?s0" "taskCount s1 = taskCount ?s0"
      by (simp_all add: started(6))
    have k1: "k < MAX_TASKS s1" "int k < taskCount s1" "taskChunkIndex (tasks s1 ! k) = i"
      "status (tasks s1 ! k) = running K"
      using len by (simp_all add: t1 MAX_TASKS_def)
    have again: "startTaskForChunk K i s1 = Some s1"
      using k1 assms(2) by (intro startTaskForChunk_running [of k]) simp_all
    have one: "tasksForChunk K i s1 = 1"
      using inv1 k1 assms(1,2) by (intro tasksForChunk_one [of K s1 k]) simp_all
    have ok0: "ring_ok ?s0" using assms(4) by (simp add: ring_ok_def)
    have sp: "hasOutputSpace 3 ?s0 = hasOutputSpace 3 s"
      by (simp add: hasOutputSpace_def OUTBUF_BYTES_def)
    have q0: "queued ?s0 = queued s" by (simp add: queued_def OUTBUF_BYTES_def)
    have a: "hasOutputSpace 3 s \<Longrightarrow> queued s1 = queued s @ [250, word_of_int (taskStartedMsg K), i]"
      unfolding started(6) using sendMessage_short(1) [OF ok0, of "taskStartedMsg K" "uint i"]
      by (simp add: sp q0)
    have b: "\<not> hasOutputSpace 3 s \<Longrightarrow> queued s1 = queued s"
      unfolding started(6) using sendMessage_short(2) [OF ok0, of "taskStartedMsg K" "uint i"]
      by (simp add: sp q0)
    from s1 again one a b True show ?thesis by simp
  qed
qed

lemma oneTaskFull_ring: "ring_ok oneTaskFull" "OUTBUF_BYTES oneTaskFull = 0" "queued oneTaskFull = []"
  by (simp_all add: ring_ok_def oneTaskFull_def emptyRing_def OUTBUF_SIZE_def
      OUTBUF_BYTES_mod queued_def)

lemma oneTaskFull_inv: "tasks_inv exampleConsts oneTaskFull"
  by (simp add: tasks_inv_def oneTaskFull_def emptyRing_def exampleConsts_def MAX_TASKS_def)

text \<open>
  With no task for the chunk and no free entry, the call is the call of
  \<open>outputString\<close> with "No free task entries", which leaves the task table alone; so
  a second call meets the same table. With no task for the chunk, a free entry and a
  chunk index beyond the chunk table, the call reads \<open>chunks[chunkIndex]\<close> out of
  bounds.
\<close>

lemma startTaskForChunk_full:
  assumes "unusedTask K = 0" and "tasksForChunk K i s = 0"
    and "\<forall>k < MAX_TASKS s. status (tasks s ! k) \<noteq> unusedTask K"
  shows "startTaskForChunk K i s =
           Some (sendMessage (outputValueMsg K) 255 21
                   (Some (2 # cstring ''No free task entries'')) s)"
proof -
  from assms(2) have none:
    "\<And>k. k < MAX_TASKS s \<Longrightarrow>
        \<not> (status (tasks s ! k) \<noteq> unusedTask K \<and> taskChunkIndex (tasks s ! k) = i)"
    by (simp add: tasksForChunk_zero_iff)
  have nr: "\<not> list_ex (\<lambda>t. i = taskChunkIndex t \<and> status t \<noteq> 0)
                (take (nat (taskCount s)) (tasks s))"
    unfolding list_ex_take_iff using none assms(1) by (auto simp add: MAX_TASKS_def)
  have "\<forall>k < length (tasks s). \<not> (unusedTask K = status (tasks s ! k))"
    using assms(3) by (auto simp add: MAX_TASKS_def)
  then have "firstIndex (\<lambda>t. unusedTask K = status t) (tasks s) \<ge> MAX_TASKS s"
    unfolding MAX_TASKS_def firstIndex_none .
  with nr show ?thesis
    by (simp add: startTaskForChunk_def Let_def outputString_noFree)
qed

lemma startTaskForChunk_out_of_range:
  assumes "unusedTask K = 0" and "tasksForChunk K i s = 0"
    and "k < MAX_TASKS s" and "status (tasks s ! k) = unusedTask K"
    and "MAX_CHUNKS s \<le> unat i"
  shows "startTaskForChunk K i s = None"
proof -
  from assms(2) have none:
    "\<And>k. k < MAX_TASKS s \<Longrightarrow>
        \<not> (status (tasks s ! k) \<noteq> unusedTask K \<and> taskChunkIndex (tasks s ! k) = i)"
    by (simp add: tasksForChunk_zero_iff)
  have nr: "\<not> list_ex (\<lambda>t. i = taskChunkIndex t \<and> status t \<noteq> 0)
                (take (nat (taskCount s)) (tasks s))"
    unfolding list_ex_take_iff using none assms(1) by (auto simp add: MAX_TASKS_def)
  have "\<not> (\<forall>k < length (tasks s). \<not> (unusedTask K = status (tasks s ! k)))"
    using assms(3,4) by (auto simp add: MAX_TASKS_def)
  then have "\<not> firstIndex (\<lambda>t. unusedTask K = status t) (tasks s) \<ge> MAX_TASKS s"
    unfolding MAX_TASKS_def firstIndex_none .
  with nr assms(5) show ?thesis
    by (simp add: startTaskForChunk_def Let_def)
qed

lemma startTaskForChunk_twice_full:
  assumes "unusedTask K = 0" and "ring_ok s" and "tasksForChunk K i s = 0"
    and "\<forall>k < MAX_TASKS s. status (tasks s ! k) \<noteq> unusedTask K"
  shows "\<exists>s1 s2. startTaskForChunk K i s = Some s1 \<and> startTaskForChunk K i s1 = Some s2 \<and>
           s1 = sendMessage (outputValueMsg K) 255 21
                  (Some (2 # cstring ''No free task entries'')) s \<and>
           s2 = sendMessage (outputValueMsg K) 255 21
                  (Some (2 # cstring ''No free task entries'')) s1 \<and>
           tasks s1 = tasks s \<and> taskCount s1 = taskCount s \<and>
           tasks s2 = tasks s \<and> taskCount s2 = taskCount s \<and>
           tasksForChunk K i s1 = 0 \<and> tasksForChunk K i s2 = 0 \<and>
           (hasOutputSpace 26 s \<longrightarrow>
              queued s1 = queued s @
                messageBytes (outputValueMsg K) 255 21
                  (Some (2 # cstring ''No free task entries''))) \<and>
           (\<not> hasOutputSpace 26 s \<longrightarrow> queued s1 = queued s) \<and>
           (hasOutputSpace 26 s1 \<longrightarrow>
              queued s2 = queued s1 @
                messageBytes (outputValueMsg K) 255 21
                  (Some (2 # cstring ''No free task entries''))) \<and>
           (\<not> hasOutputSpace 26 s1 \<longrightarrow> queued s2 = queued s1)"
proof -
  let ?d = "Some (2 # cstring ''No free task entries'')"
  let ?s1 = "sendMessage (outputValueMsg K) 255 21 ?d s"
  let ?s2 = "sendMessage (outputValueMsg K) 255 21 ?d ?s1"
  have e1: "startTaskForChunk K i s = Some ?s1"
    using assms(1,3,4) by (rule startTaskForChunk_full)
  have t1: "tasksForChunk K i ?s1 = 0" using assms(3) by simp
  have f1: "\<forall>k < MAX_TASKS ?s1. status (tasks ?s1 ! k) \<noteq> unusedTask K"
    using assms(4) by (simp add: MAX_TASKS_def)
  have e2: "startTaskForChunk K i ?s1 = Some ?s2"
    using assms(1) t1 f1 by (rule startTaskForChunk_full)
  have ok1: "ring_ok ?s1"
    by (rule sendMessage_ring_ok [OF assms(2)]) (auto simp add: cstring_def)
  have q1: "hasOutputSpace 26 s \<Longrightarrow> queued ?s1 = queued s @ messageBytes (outputValueMsg K) 255 21 ?d"
    by (rule sendMessage_noFree(1) [OF assms(2)])
  have d1: "\<not> hasOutputSpace 26 s \<Longrightarrow> queued ?s1 = queued s"
    by (simp add: sendMessage_noFree(2) [OF assms(2)])
  have q2: "hasOutputSpace 26 ?s1 \<Longrightarrow> queued ?s2 = queued ?s1 @ messageBytes (outputValueMsg K) 255 21 ?d"
    by (rule sendMessage_noFree(1) [OF ok1])
  have d2: "\<not> hasOutputSpace 26 ?s1 \<Longrightarrow> queued ?s2 = queued ?s1"
    by (simp add: sendMessage_noFree(2) [OF ok1])
  have t2: "tasksForChunk K i ?s2 = 0" using assms(3) by simp
  have f: "tasks ?s1 = tasks s" "taskCount ?s1 = taskCount s"
    "tasks ?s2 = tasks s" "taskCount ?s2 = taskCount s"
    by simp_all
  from e1 e2 t1 t2 f q1 d1 q2 d2 show ?thesis by blast
qed

text \<open>
  C5, as amended. In a state that satisfies the invariant of the task table, two calls
  of \<open>startTaskForChunk\<close> in succession for a chunk index behave as follows.

  If the chunk already has a task, or if its index lies within the chunk table and some
  task entry is free: the two calls leave exactly one entry in use for the chunk, and the
  second call changes nothing at all. If the chunk had a task already, the first call
  changes nothing either. If it had none, the first call sends one \<open>taskStartedMsg\<close>:
  the three bytes are queued when the ring has room for them and dropped otherwise.

  If the chunk has no task and no task entry is free, whatever the table holds: each of
  the two calls is the call of \<open>sendMessage\<close> for an \<open>outputValueMsg\<close> with chunk
  index 255 and the string "No free task entries"; the task table and \<open>taskCount\<close> are
  the same after either call, the chunk still has no task, and each call adds the 26
  bytes of that message to the queued bytes when the ring has room for them and nothing
  otherwise. No \<open>taskStartedMsg\<close> is sent.

  In the remaining case (no task for the chunk, a free entry, and a chunk index beyond
  the chunk table) the call reads \<open>chunks[chunkIndex]\<close> out of bounds.
  (\<open>unusedTask\<close> is the zero status and \<open>running\<close> differs from it.)
\<close>

theorem startTaskForChunk_twice:
  assumes "unusedTask K = 0" and "running K \<noteq> 0" and "tasks_inv K s" and "ring_ok s"
  shows "(tasksForChunk K i s = 1 \<or>
          (unat i < MAX_CHUNKS s \<and> (\<exists>k < MAX_TASKS s. status (tasks s ! k) = unusedTask K)) \<longrightarrow>
            (\<exists>s1. startTaskForChunk K i s = Some s1 \<and> startTaskForChunk K i s1 = Some s1 \<and>
               tasksForChunk K i s1 = 1 \<and>
               (tasksForChunk K i s = 1 \<longrightarrow> s1 = s) \<and>
               (tasksForChunk K i s = 0 \<longrightarrow>
                  (hasOutputSpace 3 s \<longrightarrow>
                     queued s1 = queued s @ [250, word_of_int (taskStartedMsg K), i]) \<and>
                  (\<not> hasOutputSpace 3 s \<longrightarrow> queued s1 = queued s)))) \<and>
         (tasksForChunk K i s = 0 \<and>
          (\<forall>k < MAX_TASKS s. status (tasks s ! k) \<noteq> unusedTask K) \<longrightarrow>
            (\<exists>s1 s2. startTaskForChunk K i s = Some s1 \<and> startTaskForChunk K i s1 = Some s2 \<and>
               s1 = sendMessage (outputValueMsg K) 255 21
                      (Some (2 # cstring ''No free task entries'')) s \<and>
               s2 = sendMessage (outputValueMsg K) 255 21
                      (Some (2 # cstring ''No free task entries'')) s1 \<and>
               tasks s1 = tasks s \<and> taskCount s1 = taskCount s \<and>
               tasks s2 = tasks s \<and> taskCount s2 = taskCount s \<and>
               tasksForChunk K i s1 = 0 \<and> tasksForChunk K i s2 = 0 \<and>
               (hasOutputSpace 26 s \<longrightarrow>
                  queued s1 = queued s @
                    messageBytes (outputValueMsg K) 255 21
                      (Some (2 # cstring ''No free task entries''))) \<and>
               (\<not> hasOutputSpace 26 s \<longrightarrow> queued s1 = queued s) \<and>
               (hasOutputSpace 26 s1 \<longrightarrow>
                  queued s2 = queued s1 @
                    messageBytes (outputValueMsg K) 255 21
                      (Some (2 # cstring ''No free task entries''))) \<and>
               (\<not> hasOutputSpace 26 s1 \<longrightarrow> queued s2 = queued s1))) \<and>
         (tasksForChunk K i s = 0 \<and> MAX_CHUNKS s \<le> unat i \<and>
          (\<exists>k < MAX_TASKS s. status (tasks s ! k) = unusedTask K) \<longrightarrow>
            startTaskForChunk K i s = None)"
proof (intro conjI impI)
  assume "tasksForChunk K i s = 1 \<or>
          (unat i < MAX_CHUNKS s \<and> (\<exists>k < MAX_TASKS s. status (tasks s ! k) = unusedTask K))"
  with assms show "\<exists>s1. startTaskForChunk K i s = Some s1 \<and> startTaskForChunk K i s1 = Some s1 \<and>
               tasksForChunk K i s1 = 1 \<and>
               (tasksForChunk K i s = 1 \<longrightarrow> s1 = s) \<and>
               (tasksForChunk K i s = 0 \<longrightarrow>
                  (hasOutputSpace 3 s \<longrightarrow>
                     queued s1 = queued s @ [250, word_of_int (taskStartedMsg K), i]) \<and>
                  (\<not> hasOutputSpace 3 s \<longrightarrow> queued s1 = queued s))"
    by (rule startTaskForChunk_twice_free)
next
  assume "tasksForChunk K i s = 0 \<and>
          (\<forall>k < MAX_TASKS s. status (tasks s ! k) \<noteq> unusedTask K)"
  then have "tasksForChunk K i s = 0"
    and "\<forall>k < MAX_TASKS s. status (tasks s ! k) \<noteq> unusedTask K"
    by simp_all
  with assms(1,4) show "\<exists>s1 s2. startTaskForChunk K i s = Some s1 \<and> startTaskForChunk K i s1 = Some s2 \<and>
               s1 = sendMessage (outputValueMsg K) 255 21
                      (Some (2 # cstring ''No free task entries'')) s \<and>
               s2 = sendMessage (outputValueMsg K) 255 21
                      (Some (2 # cstring ''No free task entries'')) s1 \<and>
               tasks s1 = tasks s \<and> taskCount s1 = taskCount s \<and>
               tasks s2 = tasks s \<and> taskCount s2 = taskCount s \<and>
               tasksForChunk K i s1 = 0 \<and> tasksForChunk K i s2 = 0 \<and>
               (hasOutputSpace 26 s \<longrightarrow>
                  queued s1 = queued s @
                    messageBytes (outputValueMsg K) 255 21
                      (Some (2 # cstring ''No free task entries''))) \<and>
               (\<not> hasOutputSpace 26 s \<longrightarrow> queued s1 = queued s) \<and>
               (hasOutputSpace 26 s1 \<longrightarrow>
                  queued s2 = queued s1 @
                    messageBytes (outputValueMsg K) 255 21
                      (Some (2 # cstring ''No free task entries''))) \<and>
               (\<not> hasOutputSpace 26 s1 \<longrightarrow> queued s2 = queued s1)"
    by (rule startTaskForChunk_twice_full)
next
  assume "tasksForChunk K i s = 0 \<and> MAX_CHUNKS s \<le> unat i \<and>
          (\<exists>k < MAX_TASKS s. status (tasks s ! k) = unusedTask K)"
  then obtain k where "tasksForChunk K i s = 0" "k < MAX_TASKS s"
    "status (tasks s ! k) = unusedTask K" "MAX_CHUNKS s \<le> unat i"
    by blast
  with assms(1) show "startTaskForChunk K i s = None"
    by (intro startTaskForChunk_out_of_range [of K i s k])
qed

theorem startTaskForChunk_twice_witness:
  "(\<exists>s1. startTaskForChunk exampleConsts 1 twoTasks = Some s1 \<and>
      startTaskForChunk exampleConsts 1 s1 = Some s1 \<and>
      tasksForChunk exampleConsts 1 s1 = 1 \<and> queued s1 = [250, 16, 1]) \<and>
   (\<exists>s1 s2. startTaskForChunk exampleConsts 0 oneTaskFull = Some s1 \<and>
      startTaskForChunk exampleConsts 0 s1 = Some s2 \<and>
      tasks s2 = tasks oneTaskFull \<and> tasksForChunk exampleConsts 0 s2 = 0 \<and>
      queued s1 = messageBytes 20 255 21 (Some (2 # cstring ''No free task entries'')) \<and>
      queued s2 = queued s1 @
        messageBytes 20 255 21 (Some (2 # cstring ''No free task entries''))) \<and>
   startTaskForChunk exampleConsts 7 twoTasks = None"
proof (intro conjI)
  have h: "unusedTask exampleConsts = 0" "running exampleConsts \<noteq> 0"
    by (simp_all add: exampleConsts_def)
  have inv: "tasks_inv exampleConsts twoTasks"
    unfolding twoTasks_def using h(1) by (rule tasks_inv_initTasks)
  note two = startTaskForChunk_twice [OF h inv twoTasks_ring(1)]
  note full = startTaskForChunk_twice [OF h oneTaskFull_inv oneTaskFull_ring(1), of 0]
  have free: "\<exists>k < MAX_TASKS twoTasks. status (tasks twoTasks ! k) = unusedTask exampleConsts"
    by (rule exI [of _ 0]) (simp add: example_defs)
  have in1: "unat (1 :: uint8) < MAX_CHUNKS twoTasks" by (simp add: example_defs)
  have z1: "tasksForChunk exampleConsts 1 twoTasks = 0"
    by (simp add: tasksForChunk_def example_defs)
  have sp: "hasOutputSpace 3 twoTasks"
    by (simp add: hasOutputSpace_def twoTasks_ring OUTBUF_MASK_def OUTBUF_SIZE_def)
  from two [of 1] free in1 z1 sp
  show "\<exists>s1. startTaskForChunk exampleConsts 1 twoTasks = Some s1 \<and>
      startTaskForChunk exampleConsts 1 s1 = Some s1 \<and>
      tasksForChunk exampleConsts 1 s1 = 1 \<and> queued s1 = [250, 16, 1]"
    by (simp add: twoTasks_ring exampleConsts_def)
  have z7: "tasksForChunk exampleConsts 7 twoTasks = 0"
    by (simp add: tasksForChunk_def example_defs)
  have out7: "MAX_CHUNKS twoTasks \<le> unat (7 :: uint8)" by (simp add: example_defs)
  from two [of 7] z7 out7 free
  show "startTaskForChunk exampleConsts 7 twoTasks = None" by blast
  let ?d = "Some (2 # cstring ''No free task entries'')"
  let ?s1 = "sendMessage 20 255 21 ?d oneTaskFull"
  have z0: "tasksForChunk exampleConsts 0 oneTaskFull = 0"
    by (simp add: tasksForChunk_def oneTaskFull_def emptyRing_def exampleConsts_def)
  have nofree: "\<forall>k < MAX_TASKS oneTaskFull.
      status (tasks oneTaskFull ! k) \<noteq> unusedTask exampleConsts"
    by (simp add: oneTaskFull_def emptyRing_def exampleConsts_def MAX_TASKS_def)
  have wf: "\<And>d. ?d = Some d \<Longrightarrow> 0 \<le> (21::int) \<and> 21 \<le> int (length d)"
    by (auto simp add: cstring_def)
  have sp0: "hasOutputSpace 26 oneTaskFull"
    by (simp add: hasOutputSpace_def oneTaskFull_ring OUTBUF_MASK_def OUTBUF_SIZE_def)
  have sp0': "hasOutputSpace (messageLength 21 ?d) oneTaskFull"
    using sp0 by (simp add: messageLength_def)
  note r1 = sendMessage_queued [OF oneTaskFull_ring(1) wf sp0', of 20 255]
  have sp1: "hasOutputSpace 26 ?s1"
    by (simp add: hasOutputSpace_def r1(2) oneTaskFull_ring OUTBUF_MASK_def OUTBUF_SIZE_def
        messageLength_def)
  have o: "outputValueMsg exampleConsts = 20" by (simp add: exampleConsts_def)
  from full z0 nofree sp0 sp1
  show "\<exists>s1 s2. startTaskForChunk exampleConsts 0 oneTaskFull = Some s1 \<and>
      startTaskForChunk exampleConsts 0 s1 = Some s2 \<and>
      tasks s2 = tasks oneTaskFull \<and> tasksForChunk exampleConsts 0 s2 = 0 \<and>
      queued s1 = messageBytes 20 255 21 ?d \<and>
      queued s2 = queued s1 @ messageBytes 20 255 21 ?d"
    by (simp add: o oneTaskFull_ring)
qed

text \<open>
  C5 as stated fails where no task entry is free: the table has a single entry, in use
  for chunk 1. Two calls for chunk 2 leave no task for chunk 2, and what they send is the
  string "No free task entries", twice, and no \<open>taskStartedMsg\<close>.
\<close>

theorem startTaskForChunk_twice_counterexample:
  "map_option (tasksForChunk exampleConsts 2)
     (Option.bind (startTaskForChunk exampleConsts 2 oneTaskFull)
        (startTaskForChunk exampleConsts 2)) = Some 0 \<and>
   map_option queued
     (Option.bind (startTaskForChunk exampleConsts 2 oneTaskFull)
        (startTaskForChunk exampleConsts 2)) =
     Some (messageBytes 20 255 21 (Some (2 # cstring ''No free task entries'')) @
           messageBytes 20 255 21 (Some (2 # cstring ''No free task entries'')))"
proof -
  let ?d = "Some (2 # cstring ''No free task entries'')"
  let ?s1 = "sendMessage 20 255 21 ?d oneTaskFull"
  let ?s2 = "sendMessage 20 255 21 ?d ?s1"
  have wf: "\<And>d. ?d = Some d \<Longrightarrow> 0 \<le> (21::int) \<and> 21 \<le> int (length d)"
    by (auto simp add: cstring_def)
  have sp0: "hasOutputSpace (messageLength 21 ?d) oneTaskFull"
    by (simp add: hasOutputSpace_def oneTaskFull_ring OUTBUF_MASK_def OUTBUF_SIZE_def
        messageLength_def)
  note r1 = sendMessage_queued [OF oneTaskFull_ring(1) wf sp0, of 20 255]
  have sp1: "hasOutputSpace (messageLength 21 ?d) ?s1"
    by (simp add: hasOutputSpace_def r1(2) oneTaskFull_ring OUTBUF_MASK_def OUTBUF_SIZE_def
        messageLength_def)
  note r2 = sendMessage_queued [OF r1(1) wf sp1, of 20 255]
  have e1: "startTaskForChunk exampleConsts 2 oneTaskFull = Some ?s1"
    by (simp add: startTaskForChunk_def outputString_noFree Let_def oneTaskFull_def
        emptyRing_def exampleConsts_def MAX_TASKS_def)
  have e2: "startTaskForChunk exampleConsts 2 ?s1 = Some ?s2"
    by (simp add: startTaskForChunk_def outputString_noFree Let_def oneTaskFull_def
        emptyRing_def exampleConsts_def MAX_TASKS_def)
  have t: "tasksForChunk exampleConsts 2 oneTaskFull = 0"
    by (simp add: tasksForChunk_def oneTaskFull_def emptyRing_def exampleConsts_def)
  show ?thesis
    by (simp add: e1 e2 t r2(4) r1(4) oneTaskFull_ring)
qed

text \<open>
  C3. \<open>stopTaskForChunk\<close> looks for the first entry whose \<open>taskChunkIndex\<close> is the
  given index and does not test its status, and every free entry has the index 0. So
  for chunk 0 it sends a \<open>taskDoneMsg\<close> although the table holds no task for chunk 0
  (first state); and when a free entry precedes the task of chunk 0, it sends the
  message and leaves that task running (second state).
\<close>

theorem stopTaskForChunk_chunk_zero:
  "tasksForChunk exampleConsts 0 twoTasks = 0 \<and>
   queued (stopTaskForChunk exampleConsts 0 twoTasks) = [250, 17, 0] \<and>
   tasksForChunk exampleConsts 0 chunkZeroRunning = 1 \<and>
   tasksForChunk exampleConsts 0 (stopTaskForChunk exampleConsts 0 chunkZeroRunning) = 1 \<and>
   queued (stopTaskForChunk exampleConsts 0 chunkZeroRunning) = [250, 17, 0]"
proof -
  have r: "ring_ok chunkZeroRunning" "queued chunkZeroRunning = []"
    "hasOutputSpace 3 chunkZeroRunning"
    by (simp_all add: ring_ok_def chunkZeroRunning_def emptyRing_def OUTBUF_SIZE_def
      OUTBUF_BYTES_mod queued_def hasOutputSpace_def OUTBUF_MASK_def)
  have sp: "hasOutputSpace 3 twoTasks"
    by (simp add: hasOutputSpace_def twoTasks_ring OUTBUF_MASK_def OUTBUF_SIZE_def)
  have e1: "stopTaskForChunk exampleConsts 0 twoTasks = sendMessage 17 0 0 None twoTasks"
    by (simp add: stopTaskForChunk_def example_defs Let_def)
  have e2: "stopTaskForChunk exampleConsts 0 chunkZeroRunning =
      sendMessage 17 0 0 None chunkZeroRunning"
    by (simp add: stopTaskForChunk_def example_defs Let_def)
  have q1: "queued (stopTaskForChunk exampleConsts 0 twoTasks) = [250, 17, 0]"
    unfolding e1 using sendMessage_short(1) [OF twoTasks_ring(1) sp, of 17 0]
    by (simp add: twoTasks_ring)
  have q2: "queued (stopTaskForChunk exampleConsts 0 chunkZeroRunning) = [250, 17, 0]"
    unfolding e2 using sendMessage_short(1) [OF r(1) r(3), of 17 0]
    by (simp add: r)
  have t: "tasksForChunk exampleConsts 0 twoTasks = 0"
    "tasksForChunk exampleConsts 0 chunkZeroRunning = 1"
    "tasksForChunk exampleConsts 0 (stopTaskForChunk exampleConsts 0 chunkZeroRunning) = 1"
    unfolding e2 by (simp_all add: tasksForChunk_def example_defs)
  from q1 q2 t show ?thesis by simp
qed

section \<open>Deleting all chunks\<close>

lemma stopAllTasks_loop_fields:
  "chunks (fold (\<lambda>t s'. if status t \<noteq> 0
                      then sendMessage msgType (uint (taskChunkIndex t)) 0 None s'
                      else s') ts s) = chunks s"
  "persistentLog (fold (\<lambda>t s'. if status t \<noteq> 0
                      then sendMessage msgType (uint (taskChunkIndex t)) 0 None s'
                      else s') ts s) = persistentLog s"
  "vars (fold (\<lambda>t s'. if status t \<noteq> 0
                      then sendMessage msgType (uint (taskChunkIndex t)) 0 None s'
                      else s') ts s) = vars s"
  by (induction ts arbitrary: s) simp_all

lemma stopAllTasks_fields [simp]:
  "chunks (stopAllTasks K s) = chunks s"
  "persistentLog (stopAllTasks K s) = persistentLog s"
  "vars (stopAllTasks K s) = vars s"
  by (simp_all add: stopAllTasks_def initTasks_def stopAllTasks_loop_fields)

lemma deleteAllChunks_loop:
  "persistentLog (fold (\<lambda>chunkIndex s'.
       snd (appendPersistentRecord chunkDeleted (int chunkIndex) 0 0 [] s')) is s) =
     persistentLog s @ map chunkDeletedRecord is \<and>
   chunks (fold (\<lambda>chunkIndex s'.
       snd (appendPersistentRecord chunkDeleted (int chunkIndex) 0 0 [] s')) is s) = chunks s"
  by (induction "is" arbitrary: s)
     (simp_all add: appendPersistentRecord_def chunkDeletedRecord_def)

lemma deleteAllChunks_log:
  "persistentLog (deleteAllChunks K s) =
     persistentLog s @ map chunkDeletedRecord [0..<MAX_CHUNKS s]"
  by (simp add: deleteAllChunks_def Let_def deleteAllChunks_loop MAX_CHUNKS_def)

lemma deleteAllChunks_chunks:
  "chunks (deleteAllChunks K s) = replicate (MAX_CHUNKS s) zeroChunk"
  by (simp add: deleteAllChunks_def Let_def deleteAllChunks_loop MAX_CHUNKS_def)

lemma deleteAllChunks_count:
  "countRecords chunkDeleted (deleteAllChunks K s) = countRecords chunkDeleted s + MAX_CHUNKS s"
  by (simp add: countRecords_def deleteAllChunks_log filter_map comp_def chunkDeletedRecord_def)

lemma storeCodeChunk_stored:
  assumes "unat i < MAX_CHUNKS s"
  shows "persistentLog (storeCodeChunk i byteCount data s) =
           persistentLog s @ [\<lparr>recType = chunkCode, recIndex = uint i, recAux = uint (data ! 0),
              recBody = take (nat (byteCount - 1)) (drop 1 data)\<rparr>]"
    and "chunks (storeCodeChunk i byteCount data s) =
           (chunks s)[unat i := \<lparr>code = Some (length (persistentLog s)), chunkType = data ! 0\<rparr>]"
    and "MAX_CHUNKS (storeCodeChunk i byteCount data s) = MAX_CHUNKS s"
  using assms
  by (simp_all add: storeCodeChunk_def appendPersistentRecord_def Let_def MAX_CHUNKS_def)

lemma shortCaseLabels_deleteAll:
  assumes "shortCaseLabelsDistinct K"
  shows "deleteAllCodeMsg K \<notin> {deleteChunkMsg K, startChunkMsg K, stopChunkMsg K, startAllMsg K,
     stopAllMsg K, getVarMsg K, deleteVarMsg K, deleteCommentMsg K, getVersionMsg K,
     getAllCodeMsg K}"
  using assms unfolding shortCaseLabelsDistinct_def by (simp add: eq_commute)

lemma shortCaseLabels_ping:
  assumes "shortCaseLabelsDistinct K"
  shows "pingMsg K \<notin> {deleteChunkMsg K, startChunkMsg K, stopChunkMsg K, startAllMsg K,
     stopAllMsg K, getVarMsg K, deleteVarMsg K, deleteCommentMsg K, getVersionMsg K,
     getAllCodeMsg K, deleteAllCodeMsg K, systemResetMsg K}"
  using assms unfolding shortCaseLabelsDistinct_def by (simp add: eq_commute)

lemma processShortMessage_switch_deleteAll:
  "shortCaseLabelsDistinct K \<Longrightarrow>
   processShortMessage_switch K H (deleteAllCodeMsg K) chunkIndex (s, h) =
     Some (deleteAllChunks K s, h)"
  using shortCaseLabels_deleteAll [of K]
  by (simp add: processShortMessage_switch_def)

lemma processShortMessage_switch_ping:
  "shortCaseLabelsDistinct K \<Longrightarrow>
   processShortMessage_switch K H (pingMsg K) chunkIndex (s, h) =
     Some (sendMessage (pingMsg K) 0 0 None s, h)"
  using shortCaseLabels_ping [of K]
  by (simp add: processShortMessage_switch_def)

text \<open>
  C4, as amended. After code chunks have been stored at the indices 1, 2 and 5 of a chunk
  table with more than five entries, the three entries hold code; dispatching
  \<open>deleteAllCodeMsg\<close> calls \<open>deleteAllChunks\<close>, which appends one \<open>chunkDeleted\<close>
  record for every index of the table, \<open>MAX_CHUNKS\<close> records in the order of the
  indices, whether the entry held a chunk or not, and leaves every entry of the chunk
  table unused (type \<open>unusedChunk\<close>, which is the zero type, and null code).
\<close>

theorem deleteAllChunks_after_store:
  assumes "unusedChunk K = 0" and "shortCaseLabelsDistinct K" and "5 < MAX_CHUNKS s"
    and "s3 = storeCodeChunk 5 n5 d5 (storeCodeChunk 2 n2 d2 (storeCodeChunk 1 n1 d1 s))"
  shows "code (chunks s3 ! 1) \<noteq> None \<and> code (chunks s3 ! 2) \<noteq> None \<and>
         code (chunks s3 ! 5) \<noteq> None \<and>
         processShortMessage_switch K H (deleteAllCodeMsg K) arg (s3, h) =
           Some (deleteAllChunks K s3, h) \<and>
         persistentLog (deleteAllChunks K s3) =
           persistentLog s3 @ map chunkDeletedRecord [0..<MAX_CHUNKS s] \<and>
         countRecords chunkDeleted (deleteAllChunks K s3) =
           countRecords chunkDeleted s3 + MAX_CHUNKS s \<and>
         length (chunks (deleteAllChunks K s3)) = MAX_CHUNKS s \<and>
         (\<forall>c \<in> set (chunks (deleteAllChunks K s3)).
            c = \<lparr>code = None, chunkType = unusedChunk K\<rparr>)"
proof -
  let ?s1 = "storeCodeChunk 1 n1 d1 s" and ?s2 = "storeCodeChunk 2 n2 d2 (storeCodeChunk 1 n1 d1 s)"
  have r1: "unat (1 :: uint8) < MAX_CHUNKS s" using assms(3) by simp
  note a1 = storeCodeChunk_stored [OF r1, of n1 d1]
  have r2: "unat (2 :: uint8) < MAX_CHUNKS ?s1" using assms(3) a1(3) by simp
  note a2 = storeCodeChunk_stored [OF r2, of n2 d2]
  have r3: "unat (5 :: uint8) < MAX_CHUNKS ?s2" using assms(3) a1(3) a2(3) by simp
  note a3 = storeCodeChunk_stored [OF r3, of n5 d5]
  have m: "MAX_CHUNKS s3 = MAX_CHUNKS s" by (simp add: assms(4) a1(3) a2(3) a3(3))
  have len: "5 < length (chunks s)" using assms(3) by (simp add: MAX_CHUNKS_def)
  have c: "code (chunks s3 ! 1) \<noteq> None" "code (chunks s3 ! 2) \<noteq> None"
    "code (chunks s3 ! 5) \<noteq> None"
    using len by (simp_all add: assms(4) a1(2) a2(2) a3(2))
  have u: "\<forall>c \<in> set (chunks (deleteAllChunks K s3)).
            c = \<lparr>code = None, chunkType = unusedChunk K\<rparr>"
    by (simp add: deleteAllChunks_chunks zeroChunk_def assms(1))
  show ?thesis
    using c u processShortMessage_switch_deleteAll [OF assms(2), of H arg s3 h]
    by (simp add: deleteAllChunks_log deleteAllChunks_count deleteAllChunks_chunks m)
qed

lemma threeChunks_facts:
  "MAX_CHUNKS threeChunks = 8" "countRecords chunkDeleted threeChunks = 0"
  "countRecords chunkCode threeChunks = 3"
  by (simp_all add: threeChunks_def storeCodeChunk_def appendPersistentRecord_def Let_def
      MAX_CHUNKS_def emptyRing_def countRecords_def)

theorem deleteAllChunks_after_store_witness:
  "countRecords chunkCode threeChunks = 3 \<and>
   countRecords chunkDeleted (deleteAllChunks exampleConsts threeChunks) = 8 \<and>
   chunks (deleteAllChunks exampleConsts threeChunks) = replicate 8 zeroChunk"
proof -
  have h: "unusedChunk exampleConsts = 0" "shortCaseLabelsDistinct exampleConsts"
    "5 < MAX_CHUNKS (emptyRing\<lparr>tasks := [zeroTask, zeroTask], chunks := replicate 8 zeroChunk\<rparr>)"
    by (simp_all add: exampleConsts_def shortCaseLabelsDistinct_def MAX_CHUNKS_def)
  note t = deleteAllChunks_after_store [OF h threeChunks_def,
      where H = listHost and h = "([], [])" and arg = 0]
  from t have a: "countRecords chunkDeleted (deleteAllChunks exampleConsts threeChunks) =
      countRecords chunkDeleted threeChunks +
      MAX_CHUNKS (emptyRing\<lparr>tasks := [zeroTask, zeroTask], chunks := replicate 8 zeroChunk\<rparr>)"
    by (elim conjE)
  from t have b: "length (chunks (deleteAllChunks exampleConsts threeChunks)) =
      MAX_CHUNKS (emptyRing\<lparr>tasks := [zeroTask, zeroTask], chunks := replicate 8 zeroChunk\<rparr>)"
    by (elim conjE)
  from t have c: "\<forall>c \<in> set (chunks (deleteAllChunks exampleConsts threeChunks)).
      c = \<lparr>code = None, chunkType = unusedChunk exampleConsts\<rparr>"
    by (elim conjE)
  have "chunks (deleteAllChunks exampleConsts threeChunks) = replicate 8 zeroChunk"
    using b c by (intro replicate_eqI) (simp_all add: MAX_CHUNKS_def zeroChunk_def exampleConsts_def)
  with a show ?thesis by (simp add: threeChunks_facts MAX_CHUNKS_def)
qed

text \<open>C4 as stated fails: for the table of eight entries with chunks 1, 2 and 5 stored,
  \<open>deleteAllChunks\<close> appends eight \<open>chunkDeleted\<close> records, not three.\<close>

theorem deleteAllChunks_counterexample:
  "countRecords chunkDeleted threeChunks = 0 \<and>
   countRecords chunkDeleted (deleteAllChunks exampleConsts threeChunks) = 8 \<and>
   countRecords chunkDeleted (deleteAllChunks exampleConsts threeChunks) \<noteq> 3"
  by (simp add: deleteAllChunks_count threeChunks_facts)

section \<open>Values: encoding and decoding\<close>


lemma ff_mask: "(0xFF :: 32 word) = mask 8"
  by (simp add: mask_eq_exp_minus_1)

lemma byte_of_word:
  "bit (ucast (ucast (w AND 0xFF :: 32 word) :: 8 word) :: 32 word) k \<longleftrightarrow> k < 8 \<and> bit w k"
  unfolding ff_mask by (auto simp add: bit_simps)

lemma le32_roundtrip:
  fixes n :: "32 word"
  shows "push_bit 24 (ucast (ucast (signed_drop_bit 24 n AND 0xFF) :: 8 word)) OR
         push_bit 16 (ucast (ucast (signed_drop_bit 16 n AND 0xFF) :: 8 word)) OR
         push_bit 8 (ucast (ucast (signed_drop_bit 8 n AND 0xFF) :: 8 word)) OR
         ucast (ucast (n AND 0xFF) :: 8 word) = n"
proof (rule bit_word_eqI)
  fix k assume k: "k < LENGTH(32)"
  then have k32: "k < 32" by simp
  have s: "bit (signed_drop_bit m n) j \<longleftrightarrow> bit n (m + j)" if "m + j < 32" for m j
    using that by (auto simp add: bit_signed_drop_bit_iff)
  consider "k < 8" | "8 \<le> k" "k < 16" | "16 \<le> k" "k < 24" | "24 \<le> k" "k < 32"
    using k32 by linarith
  then show "bit (push_bit 24 (ucast (ucast (signed_drop_bit 24 n AND 0xFF) :: 8 word)) OR
         push_bit 16 (ucast (ucast (signed_drop_bit 16 n AND 0xFF) :: 8 word)) OR
         push_bit 8 (ucast (ucast (signed_drop_bit 8 n AND 0xFF) :: 8 word)) OR
         ucast (ucast (n AND 0xFF) :: 8 word) :: 32 word) k = bit n k"
  proof cases
    case 1
    then show ?thesis by (simp add: bit_or_iff bit_push_bit_iff byte_of_word)
  next
    case 2
    then have "8 + (k - 8) < 32" "8 + (k - 8) = k" by simp_all
    with 2 show ?thesis
      by (auto simp add: bit_or_iff bit_push_bit_iff byte_of_word s)
  next
    case 3
    then have "16 + (k - 16) < 32" "16 + (k - 16) = k" by simp_all
    with 3 show ?thesis
      by (auto simp add: bit_or_iff bit_push_bit_iff byte_of_word s)
  next
    case 4
    then have "24 + (k - 24) < 32" "24 + (k - 24) = k" by simp_all
    with 4 show ?thesis
      by (auto simp add: bit_or_iff bit_push_bit_iff byte_of_word s)
  qed
qed

lemma byte_of_shift:
  fixes n :: "32 word"
  assumes "m \<le> 24"
  shows "(ucast (signed_drop_bit m n AND 0xFF) :: 8 word) = ucast (drop_bit m n)"
proof (rule bit_word_eqI)
  fix k assume "k < LENGTH(8)"
  then have "k < 8" by simp
  with assms have "m + k < 32" by simp
  with \<open>k < 8\<close> show "bit (ucast (signed_drop_bit m n AND 0xFF) :: 8 word) k =
      bit (ucast (drop_bit m n) :: 8 word) k"
    unfolding ff_mask
    by (auto simp add: bit_simps bit_signed_drop_bit_iff)
qed

lemma strlen_no_zero: "0 \<notin> set str \<Longrightarrow> strlen str = length str"
  unfolding strlen_def by (induction str) auto

lemma sendValueMessage_data_string:
  "0 \<notin> set str \<Longrightarrow> length str \<le> 499 \<Longrightarrow>
   sendValueMessage_data (StringObj str) = Some (2 # str)"
  by (simp add: sendValueMessage_data_def strlen_no_zero map_nth)

lemma sendValueMessage_data_int:
  "sendValueMessage_data (IntObj n) =
     Some [1, ucast n, ucast (drop_bit 8 n), ucast (drop_bit 16 n), ucast (drop_bit 24 n)]"
  using byte_of_shift [of 0 n] byte_of_shift [of 8 n] byte_of_shift [of 16 n]
    byte_of_shift [of 24 n]
  by (simp add: sendValueMessage_data_def)

lemma le32_decode:
  fixes n :: "32 word"
  shows "push_bit 24 (ucast (ucast (drop_bit 24 n) :: 8 word)) OR
         push_bit 16 (ucast (ucast (drop_bit 16 n) :: 8 word)) OR
         push_bit 8 (ucast (ucast (drop_bit 8 n) :: 8 word)) OR
         ucast (ucast n :: 8 word) = n"
  using le32_roundtrip [of n] byte_of_shift [of 0 n] byte_of_shift [of 8 n]
    byte_of_shift [of 16 n] byte_of_shift [of 24 n]
  by simp

lemma setVariableValue_int:
  assumes "0 \<le> varID" "varID < int (MAX_VARS s)"
  shows "vars (setVariableValue varID byteCount
            (1 # ucast n # ucast (drop_bit 8 n) # ucast (drop_bit 16 n) # ucast (drop_bit 24 n) # rest) s)
          ! nat varID = IntObj n"
  using assms by (simp add: setVariableValue_def MAX_VARS_def Let_def le32_decode)

lemma setVariableValue_bool:
  assumes "0 \<le> varID" "varID < int (MAX_VARS s)"
  shows "vars (setVariableValue varID byteCount (3 # 1 # rest) s) ! nat varID = trueObj"
    and "vars (setVariableValue varID byteCount (3 # 0 # rest) s) ! nat varID = falseObj"
  using assms by (simp_all add: setVariableValue_def MAX_VARS_def Let_def)

lemma setVariableValue_string:
  assumes "0 \<le> varID" "varID < int (MAX_VARS s)"
  shows "vars (setVariableValue varID (1 + int (length str)) (2 # str @ rest) s) ! nat varID =
           StringObj str"
  using assms by (simp add: setVariableValue_def MAX_VARS_def Let_def)

lemma sendValueMessage_queued:
  assumes "sendValueMessage_data v = Some data" and "ring_ok s"
    and "hasOutputSpace (5 + int (length data)) s"
  shows "queued (sendValueMessage msgType chunkOrVarIndex v s) =
           queued s @ [251, msgType, chunkOrVarIndex, word_of_int (int (length data) AND 255),
                       word_of_int (drop_bit 8 (int (length data)) AND 255)] @ data"
proof -
  have "queued (sendMessage (uint msgType) (uint chunkOrVarIndex) (int (length data)) (Some data) s) =
      queued s @ messageBytes (uint msgType) (uint chunkOrVarIndex) (int (length data)) (Some data)"
    by (rule sendMessage_queued(4)) (use assms in \<open>simp_all add: messageLength_def\<close>)
  then show ?thesis
    by (simp add: sendValueMessage_def assms(1) messageBytes_def)
qed

text \<open>
  C6, as amended. For a value \<open>v\<close> that is an integer, a boolean, or a string of at
  most 499 bytes none of which is zero: \<open>sendValueMessage\<close> assembles a body that
  starts with the type byte (1 and the four bytes of the integer, least significant
  first; 3 and one byte that is 1 or 0; 2 and the bytes of the string); when the ring has
  room, it queues the long-message header followed by that body; and
  \<open>setVariableValue\<close>, given the body and its length (whatever bytes follow the body
  in the buffer), stores a value equal to \<open>v\<close> in a variable slot that exists.
\<close>

theorem value_roundtrip:
  assumes "0 \<le> varID" and "varID < int (MAX_VARS s)"
    and "(\<exists>n. v = IntObj n) \<or> v = trueObj \<or> v = falseObj \<or>
         (\<exists>str. v = StringObj str \<and> length str \<le> 499 \<and> 0 \<notin> set str)"
  shows "\<exists>data. sendValueMessage_data v = Some data \<and>
           (case v of
              IntObj n \<Rightarrow> data = [1, ucast n, ucast (drop_bit 8 n), ucast (drop_bit 16 n),
                                    ucast (drop_bit 24 n)]
            | StringObj str \<Rightarrow> data = 2 # str
            | trueObj \<Rightarrow> data = [3, 1]
            | falseObj \<Rightarrow> data = [3, 0]
            | _ \<Rightarrow> False) \<and>
           (ring_ok s0 \<and> hasOutputSpace (5 + int (length data)) s0 \<longrightarrow>
              queued (sendValueMessage msgType chunkOrVarIndex v s0) =
                queued s0 @ [251, msgType, chunkOrVarIndex,
                             word_of_int (int (length data) AND 255),
                             word_of_int (drop_bit 8 (int (length data)) AND 255)] @ data) \<and>
           vars (setVariableValue varID (int (length data)) (data @ rest) s) ! nat varID = v"
proof -
  from assms(3) consider
      n where "v = IntObj n" | "v = trueObj" | "v = falseObj"
    | str where "v = StringObj str" "length str \<le> 499" "0 \<notin> set str"
    by blast
  then obtain data where d: "sendValueMessage_data v = Some data"
    and f: "(case v of
              IntObj n \<Rightarrow> data = [1, ucast n, ucast (drop_bit 8 n), ucast (drop_bit 16 n),
                                    ucast (drop_bit 24 n)]
            | StringObj str \<Rightarrow> data = 2 # str
            | trueObj \<Rightarrow> data = [3, 1]
            | falseObj \<Rightarrow> data = [3, 0]
            | _ \<Rightarrow> False)"
    and r: "vars (setVariableValue varID (int (length data)) (data @ rest) s) ! nat varID = v"
  proof cases
    case (1 n)
    show ?thesis
      by (rule that [of "[1, ucast n, ucast (drop_bit 8 n), ucast (drop_bit 16 n),
            ucast (drop_bit 24 n)]"])
         (simp_all add: 1 sendValueMessage_data_int setVariableValue_int [OF assms(1,2)])
  next
    case 2
    show ?thesis
      by (rule that [of "[3, 1]"])
         (simp_all add: 2 sendValueMessage_data_def setVariableValue_bool(1) [OF assms(1,2)])
  next
    case 3
    show ?thesis
      by (rule that [of "[3, 0]"])
         (simp_all add: 3 sendValueMessage_data_def setVariableValue_bool(2) [OF assms(1,2)])
  next
    case (4 str)
    show ?thesis
      by (rule that [of "2 # str"])
         (simp_all add: 4 sendValueMessage_data_string setVariableValue_string [OF assms(1,2)])
  qed
  from d have q: "ring_ok s0 \<and> hasOutputSpace (5 + int (length data)) s0 \<longrightarrow>
      queued (sendValueMessage msgType chunkOrVarIndex v s0) =
        queued s0 @ [251, msgType, chunkOrVarIndex, word_of_int (int (length data) AND 255),
                     word_of_int (drop_bit 8 (int (length data)) AND 255)] @ data"
    using sendValueMessage_queued [of v data s0 msgType chunkOrVarIndex] by blast
  from d f q r show ?thesis by blast
qed

theorem value_roundtrip_witness:
  "sendValueMessage_data (StringObj [104, 105]) = Some [2, 104, 105] \<and>
   vars (setVariableValue 0 3 [2, 104, 105, 0xFE] oneVar) ! 0 = StringObj [104, 105] \<and>
   sendValueMessage_data (IntObj 5) = Some [1, 5, 0, 0, 0] \<and>
   vars (setVariableValue 0 5 [1, 5, 0, 0, 0, 0xFE] oneVar) ! 0 = IntObj 5"
proof -
  have h: "(0::int) \<le> 0" "0 < int (MAX_VARS oneVar)"
    by (simp_all add: oneVar_def MAX_VARS_def)
  have a: "(\<exists>n. StringObj [104, 105] = IntObj n) \<or> StringObj [104, 105] = trueObj \<or>
     StringObj [104, 105] = falseObj \<or>
     (\<exists>str. StringObj [104, 105] = StringObj str \<and> length str \<le> 499 \<and> 0 \<notin> set str)"
    by simp
  have b: "(\<exists>n. IntObj 5 = IntObj n) \<or> IntObj 5 = trueObj \<or> IntObj 5 = falseObj \<or>
     (\<exists>str. IntObj 5 = StringObj str \<and> length str \<le> 499 \<and> 0 \<notin> set str)"
    by simp
  from value_roundtrip [OF h a, where rest = "[0xFE]" and ?s0.0 = emptyRing and msgType = 21
      and chunkOrVarIndex = 0]
    value_roundtrip [OF h b, where rest = "[0xFE]" and ?s0.0 = emptyRing and msgType = 21
      and chunkOrVarIndex = 0]
  show ?thesis by (simp add: drop_bit_eq_div)
qed

text \<open>C6 as stated fails for a string with a zero byte: \<open>sendValueMessage\<close> takes the
  length of the string with \<open>strlen\<close>, so of the three bytes 65, 0, 66 it sends only
  the first, and decoding yields the string of one byte.\<close>

theorem value_roundtrip_counterexample:
  "sendValueMessage_data (StringObj [65, 0, 66]) = Some [2, 65] \<and>
   vars (setVariableValue 0 2 [2, 65] oneVar) ! 0 = StringObj [65] \<and>
   vars (setVariableValue 0 2 [2, 65] oneVar) ! 0 \<noteq> StringObj [65, 0, 66]"
  by (simp add: sendValueMessage_data_def strlen_def setVariableValue_def oneVar_def
      MAX_VARS_def Let_def)

section \<open>Resynchronisation of the receive buffer\<close>

lemma skipToStartByteAfter_scan_spec:
  "0 \<le> i \<Longrightarrow>
   (skipToStartByteAfter_scan buf byteCount i = - 1 \<and>
      (\<forall>j. i \<le> j \<and> j < byteCount \<longrightarrow> \<not> acceptableStart buf byteCount j)) \<or>
   (i \<le> skipToStartByteAfter_scan buf byteCount i \<and>
      skipToStartByteAfter_scan buf byteCount i < byteCount \<and>
      acceptableStart buf byteCount (skipToStartByteAfter_scan buf byteCount i) \<and>
      (\<forall>j. i \<le> j \<and> j < skipToStartByteAfter_scan buf byteCount i \<longrightarrow>
           \<not> acceptableStart buf byteCount j))"
proof (induction buf byteCount i rule: skipToStartByteAfter_scan.induct)
  case (1 buf byteCount i)
  show ?case
  proof (cases "i < byteCount")
    case False
    then have "skipToStartByteAfter_scan buf byteCount i = - 1"
      by (simp add: skipToStartByteAfter_scan.simps [of buf byteCount i])
    with False show ?thesis by auto
  next
    case inside: True
    show ?thesis
    proof (cases "acceptableStart buf byteCount i")
      case True
      then have "skipToStartByteAfter_scan buf byteCount i = i"
        using inside
        by (subst skipToStartByteAfter_scan.simps)
           (auto simp add: acceptableStart_def Let_def not_less)
      with True inside show ?thesis by auto
    next
      case False
      then have step: "skipToStartByteAfter_scan buf byteCount i =
          skipToStartByteAfter_scan buf byteCount (i + 1)"
        using inside
        by (subst skipToStartByteAfter_scan.simps)
           (auto simp add: acceptableStart_def Let_def not_less not_le)
      have IH: "(skipToStartByteAfter_scan buf byteCount (i + 1) = - 1 \<and>
          (\<forall>j. i + 1 \<le> j \<and> j < byteCount \<longrightarrow> \<not> acceptableStart buf byteCount j)) \<or>
        (i + 1 \<le> skipToStartByteAfter_scan buf byteCount (i + 1) \<and>
          skipToStartByteAfter_scan buf byteCount (i + 1) < byteCount \<and>
          acceptableStart buf byteCount (skipToStartByteAfter_scan buf byteCount (i + 1)) \<and>
          (\<forall>j. i + 1 \<le> j \<and> j < skipToStartByteAfter_scan buf byteCount (i + 1) \<longrightarrow>
             \<not> acceptableStart buf byteCount j))"
      proof (cases "0xFA = buf ! nat i \<or> 0xFB = buf ! nat i")
        case True
        with False inside have bad: "i + 1 < byteCount \<and>
            (buf ! nat (i + 1) < 0x01 \<or> buf ! nat (i + 1) > 0x20)"
          by (auto simp add: acceptableStart_def not_le)
        show ?thesis
          by (rule "1.IH"(1) [OF inside refl True bad]) (use "1.prems" in simp)
      next
        case nostart: False
        show ?thesis
          by (rule "1.IH"(2) [OF inside refl nostart]) (use "1.prems" in simp)
      qed
      have ext: "\<forall>j. i \<le> j \<and> j < X \<longrightarrow> \<not> acceptableStart buf byteCount j"
        if rest: "\<forall>j. i + 1 \<le> j \<and> j < X \<longrightarrow> \<not> acceptableStart buf byteCount j" for X
      proof (intro allI impI)
        fix j assume j: "i \<le> j \<and> j < X"
        show "\<not> acceptableStart buf byteCount j"
        proof (cases "j = i")
          case True
          with False show ?thesis by simp
        next
          case False
          with j have "i + 1 \<le> j \<and> j < X" by simp
          with rest show ?thesis by blast
        qed
      qed
      from IH show ?thesis
      proof (elim disjE conjE)
        assume "skipToStartByteAfter_scan buf byteCount (i + 1) = - 1"
          and "\<forall>j. i + 1 \<le> j \<and> j < byteCount \<longrightarrow> \<not> acceptableStart buf byteCount j"
        then show ?thesis using ext [of byteCount] by (simp add: step)
      next
        assume a: "i + 1 \<le> skipToStartByteAfter_scan buf byteCount (i + 1)"
          "skipToStartByteAfter_scan buf byteCount (i + 1) < byteCount"
          "acceptableStart buf byteCount (skipToStartByteAfter_scan buf byteCount (i + 1))"
          and b: "\<forall>j. i + 1 \<le> j \<and> j < skipToStartByteAfter_scan buf byteCount (i + 1) \<longrightarrow>
             \<not> acceptableStart buf byteCount j"
        from a(1) have "i \<le> skipToStartByteAfter_scan buf byteCount (i + 1)" by simp
        with a ext [OF b] show ?thesis by (simp add: step)
      qed
    qed
  qed
qed

lemma skipToStartByteAfter_copy_spec:
  "0 \<le> dst \<Longrightarrow> dst \<le> i \<Longrightarrow> byteCount \<le> int (length buf) \<Longrightarrow>
   length (skipToStartByteAfter_copy buf byteCount i dst) = length buf \<and>
   (\<forall>j < length buf. skipToStartByteAfter_copy buf byteCount i dst ! j =
      (if dst \<le> int j \<and> int j < dst + (byteCount - i) then buf ! nat (i + (int j - dst))
       else buf ! j))"
proof (induction buf byteCount i dst rule: skipToStartByteAfter_copy.induct)
  case (1 buf byteCount i dst)
  show ?case
  proof (cases "i < byteCount")
    case False
    then show ?thesis
      by (auto simp add: skipToStartByteAfter_copy.simps [of buf byteCount i dst])
  next
    case True
    let ?buf' = "buf[nat dst := buf ! nat i]"
    have step: "skipToStartByteAfter_copy buf byteCount i dst =
        skipToStartByteAfter_copy ?buf' byteCount (i + 1) (dst + 1)"
      using True by (simp add: skipToStartByteAfter_copy.simps [of buf byteCount i dst])
    have IH: "length (skipToStartByteAfter_copy ?buf' byteCount (i + 1) (dst + 1)) = length ?buf' \<and>
      (\<forall>j < length ?buf'. skipToStartByteAfter_copy ?buf' byteCount (i + 1) (dst + 1) ! j =
        (if dst + 1 \<le> int j \<and> int j < dst + 1 + (byteCount - (i + 1))
         then ?buf' ! nat (i + 1 + (int j - (dst + 1))) else ?buf' ! j))"
      by (rule "1.IH" [OF True]) (use "1.prems" in simp_all)
    have dlen: "nat dst < length buf" using "1.prems" True by simp
    show ?thesis
      unfolding step
    proof (intro conjI allI impI)
      show "length (skipToStartByteAfter_copy ?buf' byteCount (i + 1) (dst + 1)) = length buf"
        using IH by simp
    next
      fix j assume j: "j < length buf"
      with IH have r: "skipToStartByteAfter_copy ?buf' byteCount (i + 1) (dst + 1) ! j =
        (if dst + 1 \<le> int j \<and> int j < dst + 1 + (byteCount - (i + 1))
         then ?buf' ! nat (i + 1 + (int j - (dst + 1))) else ?buf' ! j)"
        by simp
      show "skipToStartByteAfter_copy ?buf' byteCount (i + 1) (dst + 1) ! j =
        (if dst \<le> int j \<and> int j < dst + (byteCount - i) then buf ! nat (i + (int j - dst))
         else buf ! j)"
      proof (cases "dst + 1 \<le> int j \<and> int j < dst + (byteCount - i)")
        case True
        then have "nat (i + (int j - dst)) \<noteq> nat dst" using "1.prems" by arith
        with True r show ?thesis by (simp add: algebra_simps)
      next
        case False
        show ?thesis
        proof (cases "int j = dst")
          case True
          then have "nat dst = j" by simp
          with False r True dlen \<open>i < byteCount\<close> show ?thesis by (auto simp add: algebra_simps)
        next
          case neq: False
          then have "nat dst \<noteq> j" using "1.prems" by auto
          with False r neq show ?thesis by (auto simp add: algebra_simps)
        qed
      qed
    qed
  qed
qed

lemma skipToStartByteAfter_fields [simp]:
  "tasks (skipToStartByteAfter k s) = tasks s"
  "taskCount (skipToStartByteAfter k s) = taskCount s"
  "chunks (skipToStartByteAfter k s) = chunks s"
  "vars (skipToStartByteAfter k s) = vars s"
  "persistentLog (skipToStartByteAfter k s) = persistentLog s"
  "outBuf (skipToStartByteAfter k s) = outBuf s"
  "outBufStart (skipToStartByteAfter k s) = outBufStart s"
  "outBufEnd (skipToStartByteAfter k s) = outBufEnd s"
  "lastRcvTime (skipToStartByteAfter k s) = lastRcvTime s"
  by (simp_all add: skipToStartByteAfter_def Let_def)

lemma skipToStartByteAfter_found:
  assumes k: "0 \<le> k" and len: "rcvByteCount s \<le> int (length (rcvBuf s))"
    and ex: "\<exists>i. k \<le> i \<and> i < rcvByteCount s \<and> acceptableStart (rcvBuf s) (rcvByteCount s) i"
  shows "\<exists>i0. k \<le> i0 \<and> i0 < rcvByteCount s \<and>
           acceptableStart (rcvBuf s) (rcvByteCount s) i0 \<and>
           (\<forall>j. k \<le> j \<and> j < i0 \<longrightarrow> \<not> acceptableStart (rcvBuf s) (rcvByteCount s) j) \<and>
           rcvByteCount (skipToStartByteAfter k s) = rcvByteCount s - i0 \<and>
           length (rcvBuf (skipToStartByteAfter k s)) = length (rcvBuf s) \<and>
           (\<forall>j < nat (rcvByteCount s - i0).
              rcvBuf (skipToStartByteAfter k s) ! j = rcvBuf s ! (nat i0 + j))"
proof -
  let ?r = "skipToStartByteAfter_scan (rcvBuf s) (rcvByteCount s) k"
  from skipToStartByteAfter_scan_spec [OF k, of "rcvBuf s" "rcvByteCount s"] ex
  have r: "k \<le> ?r" "?r < rcvByteCount s" "acceptableStart (rcvBuf s) (rcvByteCount s) ?r"
    "\<forall>j. k \<le> j \<and> j < ?r \<longrightarrow> \<not> acceptableStart (rcvBuf s) (rcvByteCount s) j"
    by blast+
  from r(1) k have r0: "0 \<le> ?r" "?r \<noteq> - 1" by simp_all
  have s': "skipToStartByteAfter k s =
      s\<lparr>rcvBuf := skipToStartByteAfter_copy (rcvBuf s) (rcvByteCount s) ?r 0,
        rcvByteCount := rcvByteCount s - ?r\<rparr>"
    using r0 by (simp add: skipToStartByteAfter_def Let_def)
  note c = skipToStartByteAfter_copy_spec [of 0 ?r "rcvByteCount s" "rcvBuf s", OF _ r0(1) len]
  have "rcvBuf (skipToStartByteAfter k s) ! j = rcvBuf s ! (nat ?r + j)"
    if "j < nat (rcvByteCount s - ?r)" for j
  proof -
    from that len r0 have "j < length (rcvBuf s)" by simp
    moreover from that have "int j < rcvByteCount s - ?r" by simp
    ultimately have "skipToStartByteAfter_copy (rcvBuf s) (rcvByteCount s) ?r 0 ! j =
        rcvBuf s ! nat (?r + int j)"
      using c by simp
    then show ?thesis using r0 by (simp add: s' nat_add_distrib)
  qed
  with r c show ?thesis
    by (intro exI [of _ ?r]) (simp add: s')
qed

lemma skipToStartByteAfter_none:
  assumes k: "0 \<le> k"
    and no: "\<not> (\<exists>i. k \<le> i \<and> i < rcvByteCount s \<and> acceptableStart (rcvBuf s) (rcvByteCount s) i)"
  shows "skipToStartByteAfter k s = s\<lparr>rcvByteCount := 0\<rparr>"
proof -
  from skipToStartByteAfter_scan_spec [OF k, of "rcvBuf s" "rcvByteCount s"] no
  have "skipToStartByteAfter_scan (rcvBuf s) (rcvByteCount s) k = - 1" by blast
  then show ?thesis by (simp add: skipToStartByteAfter_def)
qed

lemma skipToStartByteAfter_scan_unfold:
  "skipToStartByteAfter_scan buf byteCount i =
     (if i < byteCount then
        (if acceptableStart buf byteCount i then i
         else skipToStartByteAfter_scan buf byteCount (i + 1))
      else - 1)"
proof -
  have a: "acceptableStart buf byteCount i \<longleftrightarrow>
     (0xFA = buf ! nat i \<or> 0xFB = buf ! nat i) \<and>
     \<not> (i + 1 < byteCount \<and> (buf ! nat (i + 1) < 0x01 \<or> buf ! nat (i + 1) > 0x20))"
    by (auto simp only: acceptableStart_def not_less not_le)
  show ?thesis
    unfolding a
    by (subst skipToStartByteAfter_scan.simps) (auto simp add: Let_def)
qed

lemmas processMessage_defs = processMessage_def sendNextByte_def readIntoRcvBuf_def listHost_def
  RCVBUF_SIZE_def emptyRing_def Let_def skipToStartByteAfter_def
  skipToStartByteAfter_scan_unfold acceptableStart_def skipToStartByteAfter_copy.simps
  processShortMessage_def receiveTimeout_def

lemma pingByte:
  assumes "1 \<le> pingMsg K" "pingMsg K \<le> 32"
  shows "uint (word_of_int (pingMsg K) :: uint8) = pingMsg K"
    and "(1 :: uint8) \<le> word_of_int (pingMsg K)"
    and "(word_of_int (pingMsg K) :: uint8) \<le> 32"
proof -
  show u: "uint (word_of_int (pingMsg K) :: uint8) = pingMsg K"
    using assms by (simp add: uint_word_of_int take_bit_eq_mod)
  show "(1 :: uint8) \<le> word_of_int (pingMsg K)"
    using assms by (simp add: word_le_def u)
  show "(word_of_int (pingMsg K) :: uint8) \<le> 32"
    using assms by (simp add: word_le_def u)
qed

text \<open>The scenario of the five bytes, call by call.\<close>

lemma resync_tick1:
  assumes "1 \<le> pingMsg K" "pingMsg K \<le> 32"
  shows "processMessage K listHost
           (emptyRing, ([0, 0, 0xFA, word_of_int (pingMsg K), 0], [])) =
         Some (emptyRing\<lparr>rcvBuf := 0xFA # word_of_int (pingMsg K) # 0 #
                   word_of_int (pingMsg K) # 0 # replicate 1019 0,
                 rcvByteCount := 3\<rparr>, ([], []))"
  using pingByte [OF assms]
  apply (simp add: processMessage_defs)
  apply (subst processMessage_loop.simps)
  apply (simp add: processMessage_defs)
  done

lemma resync_tick2:
  assumes "1 \<le> pingMsg K" "pingMsg K \<le> 32" "shortCaseLabelsDistinct K"
  shows "processMessage K listHost
           (emptyRing\<lparr>rcvBuf := 0xFA # word_of_int (pingMsg K) # 0 #
                   word_of_int (pingMsg K) # 0 # replicate 1019 0,
                 rcvByteCount := 3\<rparr>, ([], [])) =
         Some (emptyRing\<lparr>rcvBuf := 0xFA # word_of_int (pingMsg K) # 0 #
                   word_of_int (pingMsg K) # 0 # replicate 1019 0,
                 rcvByteCount := 0,
                 outBuf := (replicate 1024 0)[0 := 0xFA, 1 := word_of_int (pingMsg K), 2 := 0],
                 outBufEnd := 3, outBufStart := 0\<rparr>, ([], []))"
  using pingByte [OF assms(1,2)]
  by (simp add: processMessage_defs processShortMessage_switch_ping [OF assms(3)]
      sendMessage_def hasOutputSpace_def OUTBUF_MASK_def OUTBUF_SIZE_def OUTBUF_BYTES_def
      queueByte_def)

lemma resync_drain:
  assumes "0 \<le> st" "st < 3"
  shows "processMessage K listHost
           (emptyRing\<lparr>rcvBuf := buf, rcvByteCount := 0, outBuf := out, outBufEnd := 3,
              outBufStart := st\<rparr>, ([], wire)) =
         Some (emptyRing\<lparr>rcvBuf := buf, rcvByteCount := 0, outBuf := out, outBufEnd := 3,
              outBufStart := st + 1\<rparr>, ([], wire @ [out ! nat st]))"
proof -
  have "(st + 1) AND 1023 = st + 1"
    using assms by (simp add: and_1023)
  with assms show ?thesis
    by (simp add: processMessage_defs OUTBUF_MASK_def OUTBUF_SIZE_def)
qed

lemma processMessages_step:
  "processMessage K H sh = Some sh' \<Longrightarrow> processMessages K H n sh' = r \<Longrightarrow>
   processMessages K H (Suc n) sh = r"
  by simp

lemma ping_resync_scenario:
  assumes "1 \<le> pingMsg K" "pingMsg K \<le> 32" "shortCaseLabelsDistinct K"
  shows "\<exists>s2 s5.
     processMessages K listHost 2
        (emptyRing, ([0, 0, 0xFA, word_of_int (pingMsg K), 0], [])) = Some (s2, ([], [])) \<and>
     rcvByteCount s2 = 0 \<and> queued s2 = [0xFA, word_of_int (pingMsg K), 0] \<and>
     processMessages K listHost 5
        (emptyRing, ([0, 0, 0xFA, word_of_int (pingMsg K), 0], [])) =
        Some (s5, ([], [0xFA, word_of_int (pingMsg K), 0])) \<and>
     rcvByteCount s5 = 0 \<and> queued s5 = []"
proof -
  let ?buf = "0xFA # word_of_int (pingMsg K) # 0 # word_of_int (pingMsg K) # 0 # replicate 1019 0"
  let ?out = "(replicate 1024 (0::uint8))[0 := 0xFA, 1 := word_of_int (pingMsg K), 2 := 0]"
  let ?s = "\<lambda>st. emptyRing\<lparr>rcvBuf := ?buf, rcvByteCount := 0, outBuf := ?out, outBufEnd := 3,
              outBufStart := st\<rparr>"
  let ?in = "(emptyRing, ([0, 0, 0xFA, word_of_int (pingMsg K), 0], []))"
  have two: "(2::nat) = Suc (Suc 0)" and five: "(5::nat) = Suc (Suc (Suc (Suc (Suc 0))))"
    by simp_all
  have t2: "processMessages K listHost 2 ?in = Some (?s 0, ([], []))"
    apply (subst two)
    apply (rule processMessages_step [OF resync_tick1 [OF assms(1,2)]])
    apply (rule processMessages_step [OF resync_tick2 [OF assms]])
    apply simp
    done
  have d0: "processMessage K listHost (?s 0, ([], [])) = Some (?s 1, ([], [0xFA]))"
    using resync_drain [where st = 0 and K = K and buf = ?buf and out = ?out and wire = "[]"]
    by simp
  have d1: "processMessage K listHost (?s 1, ([], [0xFA])) =
      Some (?s 2, ([], [0xFA, word_of_int (pingMsg K)]))"
    using resync_drain [where st = 1 and K = K and buf = ?buf and out = ?out and wire = "[0xFA]"]
    by simp
  have d2: "processMessage K listHost (?s 2, ([], [0xFA, word_of_int (pingMsg K)])) =
      Some (?s 3, ([], [0xFA, word_of_int (pingMsg K), 0]))"
    using resync_drain [where st = 2 and K = K and buf = ?buf and out = ?out
        and wire = "[0xFA, word_of_int (pingMsg K)]"]
    by simp
  have t5: "processMessages K listHost 5 ?in = Some (?s 3, ([], [0xFA, word_of_int (pingMsg K), 0]))"
    apply (subst five)
    apply (rule processMessages_step [OF resync_tick1 [OF assms(1,2)]])
    apply (rule processMessages_step [OF resync_tick2 [OF assms]])
    apply (rule processMessages_step [OF d0])
    apply (rule processMessages_step [OF d1])
    apply (rule processMessages_step [OF d2])
    apply simp
    done
  have u: "[0..<3] = [0, 1, 2 :: nat]" by code_simp
  have q0: "queued (?s 0) = [0xFA, word_of_int (pingMsg K), 0]"
    by (simp add: queued_def OUTBUF_BYTES_mod OUTBUF_SIZE_def emptyRing_def u)
  have q3: "queued (?s 3) = []"
    by (simp add: queued_def OUTBUF_BYTES_mod emptyRing_def)
  from t2 t5 q0 q3 show ?thesis
    by (intro exI [of _ "?s 0"] exI [of _ "?s 3"]) simp
qed

text \<open>
  C8, as amended. \<open>skipToStartByteAfter(k)\<close> looks for the first index from \<open>k\<close> on,
  below \<open>rcvByteCount\<close>, whose byte is \<open>0xFA\<close> or \<open>0xFB\<close> and is either the last
  buffered byte or followed by a legal message type (1 to 32). If there is one, the bytes
  from it on are moved to the front of the buffer and \<open>rcvByteCount\<close> is reduced by
  its index; if there is none, \<open>rcvByteCount\<close> becomes 0 and nothing else changes.
  In particular, when the host delivers the bytes 0, 0, \<open>0xFA\<close>, \<open>pingMsg\<close>, 0: the
  first call of \<open>processMessage\<close> discards the two leading bytes, the second one
  queues the reply \<open>0xFA\<close>, \<open>pingMsg\<close>, 0 and empties the receive buffer, and the
  next three calls put exactly these three bytes on the wire.
\<close>

theorem skipToStartByteAfter_resync:
  assumes "0 \<le> k" and "rcvByteCount s \<le> int (length (rcvBuf s))"
    and "1 \<le> pingMsg K" and "pingMsg K \<le> 32" and "shortCaseLabelsDistinct K"
  shows "((\<exists>i. k \<le> i \<and> i < rcvByteCount s \<and> acceptableStart (rcvBuf s) (rcvByteCount s) i) \<longrightarrow>
            (\<exists>i0. k \<le> i0 \<and> i0 < rcvByteCount s \<and>
               acceptableStart (rcvBuf s) (rcvByteCount s) i0 \<and>
               (\<forall>j. k \<le> j \<and> j < i0 \<longrightarrow> \<not> acceptableStart (rcvBuf s) (rcvByteCount s) j) \<and>
               rcvByteCount (skipToStartByteAfter k s) = rcvByteCount s - i0 \<and>
               length (rcvBuf (skipToStartByteAfter k s)) = length (rcvBuf s) \<and>
               (\<forall>j < nat (rcvByteCount s - i0).
                  rcvBuf (skipToStartByteAfter k s) ! j = rcvBuf s ! (nat i0 + j)))) \<and>
         (\<not> (\<exists>i. k \<le> i \<and> i < rcvByteCount s \<and> acceptableStart (rcvBuf s) (rcvByteCount s) i) \<longrightarrow>
            skipToStartByteAfter k s = s\<lparr>rcvByteCount := 0\<rparr>) \<and>
         (\<exists>s2 s5.
            processMessages K listHost 2
              (emptyRing, ([0, 0, 0xFA, word_of_int (pingMsg K), 0], [])) = Some (s2, ([], [])) \<and>
            rcvByteCount s2 = 0 \<and> queued s2 = [0xFA, word_of_int (pingMsg K), 0] \<and>
            processMessages K listHost 5
              (emptyRing, ([0, 0, 0xFA, word_of_int (pingMsg K), 0], [])) =
              Some (s5, ([], [0xFA, word_of_int (pingMsg K), 0])) \<and>
            rcvByteCount s5 = 0 \<and> queued s5 = [])"
  using skipToStartByteAfter_found [OF assms(1,2)] skipToStartByteAfter_none [OF assms(1)]
    ping_resync_scenario [OF assms(3,4,5)]
  by blast

lemma trailingStart_skip:
  "rcvByteCount (skipToStartByteAfter 1 trailingStart) = 1"
  "rcvBuf (skipToStartByteAfter 1 trailingStart) ! 0 = 0xFA"
  by (simp_all add: trailingStart_def emptyRing_def skipToStartByteAfter_def Let_def
      skipToStartByteAfter_scan_unfold acceptableStart_def skipToStartByteAfter_copy.simps)

theorem skipToStartByteAfter_resync_witness:
  "rcvByteCount (skipToStartByteAfter 1 trailingStart) = 1 \<and>
   rcvBuf (skipToStartByteAfter 1 trailingStart) ! 0 = 0xFA \<and>
   (\<exists>s5. processMessages exampleConsts listHost 5 (emptyRing, ([0, 0, 0xFA, 26, 0], [])) =
           Some (s5, ([], [0xFA, 26, 0])) \<and> rcvByteCount s5 = 0 \<and> queued s5 = [])"
proof -
  have h: "(0::int) \<le> 1" "rcvByteCount trailingStart \<le> int (length (rcvBuf trailingStart))"
    "1 \<le> pingMsg exampleConsts" "pingMsg exampleConsts \<le> 32"
    "shortCaseLabelsDistinct exampleConsts"
    by (simp_all add: trailingStart_def emptyRing_def exampleConsts_def
        shortCaseLabelsDistinct_def)
  note t = skipToStartByteAfter_resync [OF h]
  note a = trailingStart_skip
  from t have "\<exists>s2 s5.
      processMessages exampleConsts listHost 2
        (emptyRing, ([0, 0, 0xFA, word_of_int (pingMsg exampleConsts), 0], [])) =
        Some (s2, ([], [])) \<and>
      rcvByteCount s2 = 0 \<and> queued s2 = [0xFA, word_of_int (pingMsg exampleConsts), 0] \<and>
      processMessages exampleConsts listHost 5
        (emptyRing, ([0, 0, 0xFA, word_of_int (pingMsg exampleConsts), 0], [])) =
        Some (s5, ([], [0xFA, word_of_int (pingMsg exampleConsts), 0])) \<and>
      rcvByteCount s5 = 0 \<and> queued s5 = []"
    by (elim conjE)
  then have "\<exists>s5. processMessages exampleConsts listHost 5
      (emptyRing, ([0, 0, 0xFA, word_of_int (pingMsg exampleConsts), 0], [])) =
      Some (s5, ([], [0xFA, word_of_int (pingMsg exampleConsts), 0])) \<and>
      rcvByteCount s5 = 0 \<and> queued s5 = []"
    by (elim exE conjE) (rule exI, intro conjI)
  then have "\<exists>s5. processMessages exampleConsts listHost 5 (emptyRing, ([0, 0, 0xFA, 26, 0], [])) =
           Some (s5, ([], [0xFA, 26, 0])) \<and> rcvByteCount s5 = 0 \<and> queued s5 = []"
    by (simp add: exampleConsts_def)
  with a show ?thesis by blast
qed

text \<open>C8 as stated fails for a start byte that is the last buffered byte: no byte
  follows it in the buffer (and the stale byte after it is not a legal message type),
  yet \<open>skipToStartByteAfter\<close> keeps it instead of setting \<open>rcvByteCount\<close> to 0.\<close>

theorem skipToStartByteAfter_counterexample:
  "rcvByteCount trailingStart = 2 \<and> rcvBuf trailingStart ! 1 = 0xFA \<and>
   \<not> (1 \<le> rcvBuf trailingStart ! 2 \<and> rcvBuf trailingStart ! 2 \<le> 32) \<and>
   rcvByteCount (skipToStartByteAfter 1 trailingStart) = 1 \<and>
   rcvByteCount (skipToStartByteAfter 1 trailingStart) \<noteq> 0 \<and>
   rcvBuf (skipToStartByteAfter 1 trailingStart) ! 0 = 0xFA"
  by (simp add: trailingStart_skip) (simp add: trailingStart_def emptyRing_def)

section \<open>Long messages\<close>

lemma msgLengthOf_nonneg: "0 \<le> msgLengthOf s"
  by (simp add: msgLengthOf_def)

lemma receiveTimeout_fields [simp]:
  "tasks (snd (receiveTimeout usecs s)) = tasks s"
  "taskCount (snd (receiveTimeout usecs s)) = taskCount s"
  "chunks (snd (receiveTimeout usecs s)) = chunks s"
  "vars (snd (receiveTimeout usecs s)) = vars s"
  "persistentLog (snd (receiveTimeout usecs s)) = persistentLog s"
  "outBuf (snd (receiveTimeout usecs s)) = outBuf s"
  "outBufStart (snd (receiveTimeout usecs s)) = outBufStart s"
  "outBufEnd (snd (receiveTimeout usecs s)) = outBufEnd s"
  "rcvBuf (snd (receiveTimeout usecs s)) = rcvBuf s"
  "rcvByteCount (snd (receiveTimeout usecs s)) = rcvByteCount s"
  by (simp_all add: receiveTimeout_def Let_def)

text \<open>The path of \<open>processLongMessage\<close> for a frame that is not complete yet.\<close>

lemma processLongMessage_incomplete:
  assumes "rcvByteCount s < 5 + msgLengthOf s"
  shows "processLongMessage K H (s, h) =
     Some (if fst (receiveTimeout (fst (microsecs H h)) s)
           then skipToStartByteAfter 1 (snd (receiveTimeout (fst (microsecs H h)) s))
           else snd (receiveTimeout (fst (microsecs H h)) s),
           snd (microsecs H h))"
  using assms
  by (simp add: processLongMessage_def Let_def split_beta)

lemma processLongMessage_badTerminator:
  assumes "rcvByteCount s \<ge> 5 + msgLengthOf s"
    and "rcvBuf s ! nat (4 + msgLengthOf s) \<noteq> 0xFE"
  shows "processLongMessage K H (s, h) = Some (skipToStartByteAfter 1 s, h)"
proof -
  have "5 + msgLengthOf s - 1 = 4 + msgLengthOf s" by simp
  moreover have "\<not> rcvByteCount s < 5" using assms(1) msgLengthOf_nonneg [of s] by simp
  ultimately show ?thesis
    using assms by (simp add: processLongMessage_def Let_def)
qed

text \<open>
  C7. When fewer than \<open>5 + msgLength\<close> bytes are buffered, or the byte at offset
  \<open>4 + msgLength\<close> is not \<open>0xFE\<close>, \<open>processLongMessage\<close> runs no command
  handler: the task table, the chunk table, the variables, the persistent log and the
  output ring stay as they are. If the frame is completely buffered (its terminator being
  wrong), the result is that of the resync \<open>skipToStartByteAfter(1)\<close>; if it is not
  complete, the result is the state itself or, after the receive timeout, that resync.
\<close>

theorem processLongMessage_not_dispatched:
  assumes "\<not> (rcvByteCount s \<ge> 5 + msgLengthOf s \<and> rcvBuf s ! nat (4 + msgLengthOf s) = 0xFE)"
  shows "\<exists>s' h'. processLongMessage K H (s, h) = Some (s', h') \<and>
           tasks s' = tasks s \<and> taskCount s' = taskCount s \<and> chunks s' = chunks s \<and>
           vars s' = vars s \<and> persistentLog s' = persistentLog s \<and>
           outBuf s' = outBuf s \<and> outBufStart s' = outBufStart s \<and>
           outBufEnd s' = outBufEnd s \<and>
           (rcvByteCount s \<ge> 5 + msgLengthOf s \<longrightarrow> s' = skipToStartByteAfter 1 s \<and> h' = h) \<and>
           (rcvByteCount s < 5 + msgLengthOf s \<longrightarrow>
              h' = snd (microsecs H h) \<and>
              (s' = snd (receiveTimeout (fst (microsecs H h)) s) \<or>
               s' = skipToStartByteAfter 1 (snd (receiveTimeout (fst (microsecs H h)) s))))"
proof (cases "rcvByteCount s < 5 + msgLengthOf s")
  case True
  show ?thesis
    unfolding processLongMessage_incomplete [OF True]
    using True by (cases "fst (receiveTimeout (fst (microsecs H h)) s)") simp_all
next
  case False
  with assms have "rcvByteCount s \<ge> 5 + msgLengthOf s"
    "rcvBuf s ! nat (4 + msgLengthOf s) \<noteq> 0xFE"
    by simp_all
  from processLongMessage_badTerminator [OF this] False show ?thesis by simp
qed

theorem processLongMessage_not_dispatched_witness:
  "msgLengthOf badTerminator = 2 \<and> rcvBuf badTerminator ! 6 = 0 \<and>
   (\<exists>s'. processLongMessage exampleConsts listHost (badTerminator, ([], [])) =
           Some (s', ([], [])) \<and>
         chunks s' = chunks badTerminator \<and> persistentLog s' = [] \<and>
         s' = skipToStartByteAfter 1 badTerminator)"
proof -
  have m: "msgLengthOf badTerminator = 2" "rcvByteCount badTerminator = 7"
    "rcvBuf badTerminator ! 6 = 0" "persistentLog badTerminator = []"
    by (simp_all add: msgLengthOf_def badTerminator_def emptyRing_def)
  then have h: "\<not> (rcvByteCount badTerminator \<ge> 5 + msgLengthOf badTerminator \<and>
      rcvBuf badTerminator ! nat (4 + msgLengthOf badTerminator) = 0xFE)"
    by simp
  from processLongMessage_not_dispatched [OF h, of exampleConsts listHost "([], [])"] m
  show ?thesis by auto
qed

text \<open>The other path: a completely buffered frame with the terminator in place is handed
  to the \<open>switch\<close>, and the frame is removed from the buffer afterwards.\<close>

lemma processLongMessage_dispatched:
  assumes "rcvByteCount s \<ge> 5 + msgLengthOf s"
    and "rcvBuf s ! nat (4 + msgLengthOf s) = 0xFE"
  shows "processLongMessage K H (s, h) =
     (case processLongMessage_switch K (uint (rcvBuf s ! 1)) (uint (rcvBuf s ! 2))
             (msgLengthOf s - 1) (drop 5 (rcvBuf s)) s of
        None \<Rightarrow> None
      | Some s' \<Rightarrow> Some (skipToStartByteAfter (5 + msgLengthOf s) s', h))"
proof -
  have "5 + msgLengthOf s - 1 = 4 + msgLengthOf s" by simp
  moreover have "\<not> rcvByteCount s < 5" using assms(1) msgLengthOf_nonneg [of s] by simp
  ultimately show ?thesis
    using assms by (simp add: processLongMessage_def Let_def)
qed

end
